theory Spec2Isabelle
  imports Main "HOL-Library.Multiset"
begin

section \<open>Nodes (node.py)\<close>

datatype NodeType = IDENTITY | RESOURCE

datatype IdentityType = USER | GROUP | SERVICE_ACCOUNT

datatype ResourceType = ORGANIZATION | FOLDER | PROJECT

text \<open>The \<^verbatim>\<open>.value\<close> of the two enums whose values become a node's inner type.\<close>

fun identity_value :: "IdentityType \<Rightarrow> string" where
  "identity_value USER = ''User''"
| "identity_value GROUP = ''Group''"
| "identity_value SERVICE_ACCOUNT = ''ServiceAccount''"

fun resource_value :: "ResourceType \<Rightarrow> string" where
  "resource_value ORGANIZATION = ''Organization''"
| "resource_value FOLDER = ''Folder''"
| "resource_value PROJECT = ''Project''"

text \<open>
  The frozen dataclass \<^verbatim>\<open>Node(type, inner_type, id)\<close>. The fields \<^verbatim>\<open>type\<close> and
  \<^verbatim>\<open>id\<close> are written \<open>ntype\<close> and \<open>node_id\<close> (\<open>id\<close> is HOL's identity function).
\<close>

record Node =
  ntype :: NodeType
  inner_type :: string
  node_id :: string

definition IdentityNode :: "string \<Rightarrow> IdentityType \<Rightarrow> Node" where
  "IdentityNode identity_id it =
     \<lparr>ntype = IDENTITY, inner_type = identity_value it, node_id = identity_id\<rparr>"

definition ResourceNode :: "string \<Rightarrow> ResourceType \<Rightarrow> Node" where
  "ResourceNode resource_id rt =
     \<lparr>ntype = RESOURCE, inner_type = resource_value rt, node_id = resource_id\<rparr>"

section \<open>Edges (edge.py)\<close>

datatype RoleType = OWNER | VIEWER | EDITOR

datatype EdgeType = PARENT_OF | HAS_ROLE

text \<open>
  The dataclass \<^verbatim>\<open>Edge(source, target, type)\<close>; the attribute \<^verbatim>\<open>role\<close> exists only on
  an edge built by \<^verbatim>\<open>HasRoleEdge\<close>, so it is optional here. The field \<^verbatim>\<open>type\<close> is
  written \<open>etype\<close>.
\<close>

record Edge =
  source :: Node
  target :: Node
  etype :: EdgeType
  role :: "RoleType option"

definition ParentOfEdge :: "Node \<Rightarrow> Node \<Rightarrow> Edge" where
  "ParentOfEdge parent child =
     \<lparr>source = parent, target = child, etype = PARENT_OF, role = None\<rparr>"

definition HasRoleEdge :: "Node \<Rightarrow> Node \<Rightarrow> RoleType \<Rightarrow> Edge" where
  "HasRoleEdge identity resource r =
     \<lparr>source = identity, target = resource, etype = HAS_ROLE, role = Some r\<rparr>"

section \<open>The graph (graph.py)\<close>

text \<open>
  What a call can raise: \<^verbatim>\<open>NodeNotFoundError(node_id)\<close> and \<^verbatim>\<open>ValueError\<close> are raised
  by the code itself; \<^verbatim>\<open>AttributeError\<close> is Python's answer to \<^verbatim>\<open>edge.role\<close> on an
  edge without that attribute, and \<^verbatim>\<open>RecursionError\<close> its answer to generator frames
  nested deeper than the interpreter's recursion limit.
\<close>

datatype error = NodeNotFoundError string | ValueError | AttributeError | RecursionError

text \<open>The frozen dataclass \<^verbatim>\<open>PermissionEntry\<close>; its \<^verbatim>\<open>role\<close> is written \<open>entry_role\<close>.\<close>

record PermissionEntry =
  resource_id :: string
  resource_type :: string
  entry_role :: RoleType

record Graph =
  nodes :: "string \<rightharpoonup> Node"
  out_edges :: "string \<rightharpoonup> Edge list"
  in_edges :: "string \<rightharpoonup> Edge list"

text \<open>\<^verbatim>\<open>Graph.__init__\<close>: three empty dictionaries.\<close>

definition empty_graph :: Graph where
  "empty_graph = \<lparr>nodes = Map.empty, out_edges = Map.empty, in_edges = Map.empty\<rparr>"

text \<open>
  The dictionary accesses the code uses, each returning its value together with the
  dictionary as the access leaves it. \<^verbatim>\<open>d.get(k)\<close> and \<^verbatim>\<open>d.get(k, default)\<close> read and
  never insert. \<^verbatim>\<open>d[k]\<close> on a \<^verbatim>\<open>defaultdict(list)\<close> binds a missing key to the empty
  list before it returns the list.
\<close>

definition dict_get_call :: "('k \<rightharpoonup> 'v) \<Rightarrow> 'k \<Rightarrow> 'v option \<times> ('k \<rightharpoonup> 'v)" where
  "dict_get_call d k = (d k, d)"

definition dict_get_default_call :: "('k \<rightharpoonup> 'v) \<Rightarrow> 'k \<Rightarrow> 'v \<Rightarrow> 'v \<times> ('k \<rightharpoonup> 'v)" where
  "dict_get_default_call d k dflt = (case d k of None \<Rightarrow> (dflt, d) | Some v \<Rightarrow> (v, d))"

definition defaultdict_getitem :: "('k \<rightharpoonup> 'v list) \<Rightarrow> 'k \<Rightarrow> 'v list \<times> ('k \<rightharpoonup> 'v list)" where
  "defaultdict_getitem d k = (case d k of None \<Rightarrow> ([], d(k \<mapsto> [])) | Some v \<Rightarrow> (v, d))"

text \<open>
  The value part of \<^verbatim>\<open>d.get(k, [])\<close>, and \<^verbatim>\<open>d[k].append(e)\<close> on an adjacency
  dictionary: the item access, then the append to the list it returned.
\<close>

definition dict_get :: "('k \<rightharpoonup> 'v list) \<Rightarrow> 'k \<Rightarrow> 'v list" where
  "dict_get d k = (case d k of None \<Rightarrow> [] | Some v \<Rightarrow> v)"

definition dict_append :: "('k \<rightharpoonup> 'v list) \<Rightarrow> 'k \<Rightarrow> 'v \<Rightarrow> ('k \<rightharpoonup> 'v list)" where
  "dict_append d k e = (case defaultdict_getitem d k of (v, d') \<Rightarrow> d'(k \<mapsto> v @ [e]))"

subsection \<open>Node management\<close>

definition add_node :: "Graph \<Rightarrow> Node \<Rightarrow> Graph" where
  "add_node g node =
     (if nodes g (node_id node) = None
      then g\<lparr>nodes := (nodes g)(node_id node \<mapsto> node)\<rparr>
      else g)"

definition get_node :: "Graph \<Rightarrow> string \<Rightarrow> Node option" where
  "get_node g i = nodes g i"

subsection \<open>Edge management\<close>

text \<open>
  \<^verbatim>\<open>add_edge\<close> returns the error it raised, if any, together with the graph as the call
  leaves it.
\<close>

definition add_edge :: "Graph \<Rightarrow> Edge \<Rightarrow> error option \<times> Graph" where
  "add_edge g edge =
     (if nodes g (node_id (source edge)) = None \<or> nodes g (node_id (target edge)) = None
      then (Some ValueError, g)
      else (None,
            g\<lparr>out_edges := dict_append (out_edges g) (node_id (source edge)) edge,
              in_edges := dict_append (in_edges g) (node_id (target edge)) edge\<rparr>))"

text \<open>A generator is modelled by the list of what it yields when it is consumed to the end.\<close>

definition iter_out_edges :: "Graph \<Rightarrow> string \<Rightarrow> Edge list" where
  "iter_out_edges g i = dict_get (out_edges g) i"

definition iter_in_edges :: "Graph \<Rightarrow> string \<Rightarrow> Edge list" where
  "iter_in_edges g i = dict_get (in_edges g) i"

subsection \<open>Hierarchy traversal\<close>

definition iter_children :: "Graph \<Rightarrow> string \<Rightarrow> Node list" where
  "iter_children g i =
     map target (filter (\<lambda>edge. etype edge = PARENT_OF) (dict_get (out_edges g) i))"

definition iter_parents :: "Graph \<Rightarrow> string \<Rightarrow> Node list" where
  "iter_parents g i =
     map source (filter (\<lambda>edge. etype edge = PARENT_OF) (dict_get (in_edges g) i))"

text \<open>
  \<^verbatim>\<open>_iter_descendants\<close>: the loop over the children, each child followed by what the
  recursive generator yields for it. The first argument of \<open>iter_descendants\<close> is the
  number of generator frames that may still be nested; with none left the interpreter
  raises \<^verbatim>\<open>RecursionError\<close>, which ends every enclosing loop.
\<close>

fun for_children :: "(string \<Rightarrow> error + Node list) \<Rightarrow> Node list \<Rightarrow> error + Node list" where
  "for_children rec [] = Inr []"
| "for_children rec (child # cs) =
     (case rec (node_id child) of
        Inl e \<Rightarrow> Inl e
      | Inr ds \<Rightarrow>
          (case for_children rec cs of
             Inl e \<Rightarrow> Inl e
           | Inr rest \<Rightarrow> Inr (child # ds @ rest)))"

primrec iter_descendants :: "nat \<Rightarrow> Graph \<Rightarrow> string \<Rightarrow> error + Node list" where
  "iter_descendants 0 g i = Inl RecursionError"
| "iter_descendants (Suc depth) g i =
     for_children (\<lambda>c. iter_descendants depth g c) (iter_children g i)"

subsection \<open>Ancestors: \<^verbatim>\<open>iter_resource_hierarchy\<close>\<close>

text \<open>
  The body of \<^verbatim>\<open>for parent in self.iter_parents(current_id)\<close>, on the queue, the visited
  set and the nodes yielded so far.
\<close>

fun for_parents ::
  "Node list \<Rightarrow> string list \<times> string set \<times> Node list \<Rightarrow> string list \<times> string set \<times> Node list"
where
  "for_parents [] s = s"
| "for_parents (parent # ps) (queue, visited, out) =
     (if node_id parent \<in> visited then for_parents ps (queue, visited, out)
      else for_parents ps (queue @ [node_id parent], insert (node_id parent) visited,
                           out @ [parent]))"

text \<open>The \<^verbatim>\<open>while queue\<close> loop; \<open>None\<close> is a loop that never ends.\<close>

partial_function (option) bfs_loop ::
  "Graph \<Rightarrow> string list \<times> string set \<times> Node list \<Rightarrow> Node list option"
where
  "bfs_loop g s =
     (case s of
        ([], visited, out) \<Rightarrow> Some out
      | (current_id # queue, visited, out) \<Rightarrow>
          bfs_loop g (for_parents (iter_parents g current_id) (queue, visited, out)))"

definition iter_resource_hierarchy :: "Graph \<Rightarrow> string \<Rightarrow> Node list option" where
  "iter_resource_hierarchy g rid = bfs_loop g ([rid], {}, [])"

subsection \<open>Permissions: \<^verbatim>\<open>iter_user_permissions\<close>\<close>

definition entry :: "Node \<Rightarrow> RoleType \<Rightarrow> PermissionEntry" where
  "entry n r = \<lparr>resource_id = node_id n, resource_type = inner_type n, entry_role = r\<rparr>"

text \<open>The loop over the identity's outgoing edges.\<close>

fun for_out_edges :: "nat \<Rightarrow> Graph \<Rightarrow> Edge list \<Rightarrow> error + PermissionEntry list" where
  "for_out_edges depth g [] = Inr []"
| "for_out_edges depth g (edge # es) =
     (if etype edge \<noteq> HAS_ROLE then for_out_edges depth g es
      else
        (case role edge of
           None \<Rightarrow> Inl AttributeError
         | Some r \<Rightarrow>
             (case iter_descendants depth g (node_id (target edge)) of
                Inl e \<Rightarrow> Inl e
              | Inr ds \<Rightarrow>
                  (case for_out_edges depth g es of
                     Inl e \<Rightarrow> Inl e
                   | Inr rest \<Rightarrow> Inr (entry (target edge) r # map (\<lambda>d. entry d r) ds @ rest)))))"

definition iter_user_permissions :: "nat \<Rightarrow> Graph \<Rightarrow> string \<Rightarrow> error + PermissionEntry list" where
  "iter_user_permissions depth g node_identity_id =
     (case get_node g node_identity_id of
        None \<Rightarrow> Inl (NodeNotFoundError node_identity_id)
      | Some identity_node \<Rightarrow> for_out_edges depth g (iter_out_edges g node_identity_id))"

section \<open>The read methods with the graph threaded through\<close>

text \<open>
  The read methods once more, now as calls on the graph object: every access to one of
  the three dictionaries goes through the access functions above, and the dictionary the
  access leaves behind is put back into the graph, which is passed on to the next
  statement, through every loop and every recursive call. Each function returns its
  answer and the graph as the call leaves it.
\<close>

definition get_node_st :: "Graph \<Rightarrow> string \<Rightarrow> Node option \<times> Graph" where
  "get_node_st g i =
     (case dict_get_call (nodes g) i of (r, d) \<Rightarrow> (r, g\<lparr>nodes := d\<rparr>))"

definition iter_out_edges_st :: "Graph \<Rightarrow> string \<Rightarrow> Edge list \<times> Graph" where
  "iter_out_edges_st g i =
     (case dict_get_default_call (out_edges g) i [] of (es, d) \<Rightarrow> (es, g\<lparr>out_edges := d\<rparr>))"

definition iter_in_edges_st :: "Graph \<Rightarrow> string \<Rightarrow> Edge list \<times> Graph" where
  "iter_in_edges_st g i =
     (case dict_get_default_call (in_edges g) i [] of (es, d) \<Rightarrow> (es, g\<lparr>in_edges := d\<rparr>))"

definition iter_children_st :: "Graph \<Rightarrow> string \<Rightarrow> Node list \<times> Graph" where
  "iter_children_st g i =
     (case dict_get_default_call (out_edges g) i [] of
        (es, d) \<Rightarrow> (map target (filter (\<lambda>edge. etype edge = PARENT_OF) es), g\<lparr>out_edges := d\<rparr>))"

definition iter_parents_st :: "Graph \<Rightarrow> string \<Rightarrow> Node list \<times> Graph" where
  "iter_parents_st g i =
     (case dict_get_default_call (in_edges g) i [] of
        (es, d) \<Rightarrow> (map source (filter (\<lambda>edge. etype edge = PARENT_OF) es), g\<lparr>in_edges := d\<rparr>))"

fun for_children_st ::
  "(Graph \<Rightarrow> string \<Rightarrow> (error + Node list) \<times> Graph) \<Rightarrow> Graph \<Rightarrow> Node list \<Rightarrow>
   (error + Node list) \<times> Graph"
where
  "for_children_st rec g [] = (Inr [], g)"
| "for_children_st rec g (child # cs) =
     (case rec g (node_id child) of
        (Inl e, g1) \<Rightarrow> (Inl e, g1)
      | (Inr ds, g1) \<Rightarrow>
          (case for_children_st rec g1 cs of
             (Inl e, g2) \<Rightarrow> (Inl e, g2)
           | (Inr rest, g2) \<Rightarrow> (Inr (child # ds @ rest), g2)))"

primrec iter_descendants_st :: "nat \<Rightarrow> Graph \<Rightarrow> string \<Rightarrow> (error + Node list) \<times> Graph" where
  "iter_descendants_st 0 g i = (Inl RecursionError, g)"
| "iter_descendants_st (Suc depth) g i =
     (case iter_children_st g i of
        (cs, g1) \<Rightarrow> for_children_st (\<lambda>h c. iter_descendants_st depth h c) g1 cs)"

partial_function (option) bfs_loop_st ::
  "Graph \<times> string list \<times> string set \<times> Node list \<Rightarrow> (Node list \<times> Graph) option"
where
  "bfs_loop_st s =
     (case s of
        (g, [], visited, out) \<Rightarrow> Some (out, g)
      | (g, current_id # queue, visited, out) \<Rightarrow>
          (case iter_parents_st g current_id of
             (ps, g1) \<Rightarrow> bfs_loop_st (g1, for_parents ps (queue, visited, out))))"

definition iter_resource_hierarchy_st :: "Graph \<Rightarrow> string \<Rightarrow> (Node list \<times> Graph) option" where
  "iter_resource_hierarchy_st g rid = bfs_loop_st (g, [rid], {}, [])"

fun for_out_edges_st ::
  "nat \<Rightarrow> Graph \<Rightarrow> Edge list \<Rightarrow> (error + PermissionEntry list) \<times> Graph"
where
  "for_out_edges_st depth g [] = (Inr [], g)"
| "for_out_edges_st depth g (edge # es) =
     (if etype edge \<noteq> HAS_ROLE then for_out_edges_st depth g es
      else
        (case role edge of
           None \<Rightarrow> (Inl AttributeError, g)
         | Some r \<Rightarrow>
             (case iter_descendants_st depth g (node_id (target edge)) of
                (Inl e, g1) \<Rightarrow> (Inl e, g1)
              | (Inr ds, g1) \<Rightarrow>
                  (case for_out_edges_st depth g1 es of
                     (Inl e, g2) \<Rightarrow> (Inl e, g2)
                   | (Inr rest, g2) \<Rightarrow>
                       (Inr (entry (target edge) r # map (\<lambda>d. entry d r) ds @ rest), g2)))))"

definition iter_user_permissions_st ::
  "nat \<Rightarrow> Graph \<Rightarrow> string \<Rightarrow> (error + PermissionEntry list) \<times> Graph"
where
  "iter_user_permissions_st depth g node_identity_id =
     (case get_node_st g node_identity_id of
        (None, g1) \<Rightarrow> (Inl (NodeNotFoundError node_identity_id), g1)
      | (Some identity_node, g1) \<Rightarrow>
          (case iter_out_edges_st g1 node_identity_id of
             (es, g2) \<Rightarrow> for_out_edges_st depth g2 es))"

section \<open>Calls on a graph\<close>

text \<open>
  The construction interface: a graph is built by a sequence of calls to \<^verbatim>\<open>add_node\<close>
  and \<^verbatim>\<open>add_edge\<close>, starting from \<^verbatim>\<open>Graph()\<close>. A call to \<^verbatim>\<open>add_edge\<close> that raises
  leaves the caller with the graph as the call left it.
\<close>

datatype mutation = AddNode Node | AddEdge Edge

fun mutate :: "Graph \<Rightarrow> mutation \<Rightarrow> Graph" where
  "mutate g (AddNode n) = add_node g n"
| "mutate g (AddEdge e) = snd (add_edge g e)"

definition build_from :: "Graph \<Rightarrow> mutation list \<Rightarrow> Graph" where
  "build_from g ms = foldl mutate g ms"

definition build :: "mutation list \<Rightarrow> Graph" where
  "build ms = build_from empty_graph ms"

text \<open>The edges of the calls to \<^verbatim>\<open>add_edge\<close> that did not raise, in the order of the calls.\<close>

fun accepted_from :: "Graph \<Rightarrow> mutation list \<Rightarrow> Edge list" where
  "accepted_from g [] = []"
| "accepted_from g (AddNode n # ms) = accepted_from (add_node g n) ms"
| "accepted_from g (AddEdge e # ms) =
     (case fst (add_edge g e) of
        None \<Rightarrow> e # accepted_from (snd (add_edge g e)) ms
      | Some err \<Rightarrow> accepted_from (snd (add_edge g e)) ms)"

definition accepted :: "mutation list \<Rightarrow> Edge list" where
  "accepted ms = accepted_from empty_graph ms"

text \<open>All edges held by an adjacency index, with their multiplicities.\<close>

definition index_mset :: "(string \<rightharpoonup> Edge list) \<Rightarrow> Edge multiset" where
  "index_mset d = (\<Sum>k \<in> dom d. mset (dict_get d k))"

section \<open>The hierarchy as a relation\<close>

text \<open>
  One step of the hierarchy on node ids, as each index records it: \<open>(c, p)\<close> when
  \<open>p\<close> is among the parents of \<open>c\<close> (incoming index), respectively when \<open>c\<close> is
  among the children of \<open>p\<close> (outgoing index).
\<close>

definition parent_rel :: "Graph \<Rightarrow> (string \<times> string) set" where
  "parent_rel g = {(c, p). p \<in> node_id ` set (iter_parents g c)}"

definition child_rel :: "Graph \<Rightarrow> (string \<times> string) set" where
  "child_rel g = {(c, p). c \<in> node_id ` set (iter_children g p)}"

section \<open>What one role edge grants\<close>


section \<open>Levels of the ancestor traversal\<close>

text \<open>
  Three functions that describe what the queue loop computes, one level of the hierarchy at
  a time. \<open>fresh ps visited\<close> is what one pass over a parent list yields: the parents
  whose id is neither visited nor met earlier in the list. \<open>scan\<close> chains these passes
  over a list of ids, and \<open>level g rid k\<close> is the queue, the visited set and the output
  after \<open>k\<close> whole levels.
\<close>

fun fresh :: "Node list \<Rightarrow> string set \<Rightarrow> Node list" where
  "fresh [] visited = []"
| "fresh (p # ps) visited =
     (if node_id p \<in> visited then fresh ps visited
      else p # fresh ps (insert (node_id p) visited))"

fun scan :: "Graph \<Rightarrow> string list \<Rightarrow> string set \<Rightarrow> Node list" where
  "scan g [] visited = []"
| "scan g (c # cs) visited =
     fresh (iter_parents g c) visited @
     scan g cs (visited \<union> node_id ` set (fresh (iter_parents g c) visited))"

primrec level :: "Graph \<Rightarrow> string \<Rightarrow> nat \<Rightarrow> string list \<times> string set \<times> Node list" where
  "level g rid 0 = ([rid], {}, [])"
| "level g rid (Suc k) =
     (case level g rid k of
        (frontier, visited, out) \<Rightarrow>
          (map node_id (scan g frontier visited),
           visited \<union> node_id ` set (scan g frontier visited),
           out @ scan g frontier visited))"

text \<open>
  The ids reached from \<open>rid\<close> by exactly \<open>n\<close> steps to a parent, and by between one
  and \<open>k\<close> such steps.
\<close>

definition reach :: "Graph \<Rightarrow> string \<Rightarrow> nat \<Rightarrow> string set" where
  "reach g rid n = {a. (rid, a) \<in> parent_rel g ^^ n}"

definition within :: "Graph \<Rightarrow> string \<Rightarrow> nat \<Rightarrow> string set" where
  "within g rid k = {a. \<exists>m. 0 < m \<and> m \<le> k \<and> a \<in> reach g rid m}"

section \<open>Example graphs\<close>

definition Org :: Node where "Org = ResourceNode ''Org'' ORGANIZATION"
definition F1 :: Node where "F1 = ResourceNode ''F1'' FOLDER"
definition F2 :: Node where "F2 = ResourceNode ''F2'' FOLDER"
definition F5 :: Node where "F5 = ResourceNode ''F5'' FOLDER"
definition F6 :: Node where "F6 = ResourceNode ''F6'' FOLDER"
definition U :: Node where "U = IdentityNode ''U'' USER"

text \<open>The chain \<open>Org -> F1 -> F5 -> F6\<close>, with \<open>U\<close> owner of \<open>F1\<close>.\<close>

definition chain_calls :: "mutation list" where
  "chain_calls =
     [AddNode Org, AddNode F1, AddNode F5, AddNode F6, AddNode U,
      AddEdge (ParentOfEdge Org F1), AddEdge (ParentOfEdge F1 F5),
      AddEdge (ParentOfEdge F5 F6), AddEdge (HasRoleEdge U F1 OWNER)]"

definition chain_graph :: Graph where
  "chain_graph = build chain_calls"



text \<open>The tree \<open>Org -> {F1, F2}\<close>, \<open>F1 -> {F5}\<close>.\<close>

definition tree_calls :: "mutation list" where
  "tree_calls =
     [AddNode Org, AddNode F1, AddNode F2, AddNode F5,
      AddEdge (ParentOfEdge Org F1), AddEdge (ParentOfEdge Org F2),
      AddEdge (ParentOfEdge F1 F5)]"

definition tree_graph :: Graph where
  "tree_graph = build tree_calls"

text \<open>Two parents \<open>F1\<close>, \<open>F2\<close> of \<open>F5\<close> that share the parent \<open>Org\<close>.\<close>

definition diamond_calls :: "mutation list" where
  "diamond_calls =
     [AddNode Org, AddNode F1, AddNode F2, AddNode F5,
      AddEdge (ParentOfEdge Org F1), AddEdge (ParentOfEdge Org F2),
      AddEdge (ParentOfEdge F1 F5), AddEdge (ParentOfEdge F2 F5)]"

definition diamond_graph :: Graph where
  "diamond_graph = build diamond_calls"

text \<open>
  Two branches of different depth above \<open>F6\<close>: \<open>F1 -> F5 -> F6\<close> and
  \<open>Org -> F2 -> F6\<close>, the edges into \<open>F6\<close> inserted first.
\<close>

definition fork_calls :: "mutation list" where
  "fork_calls =
     [AddNode Org, AddNode F1, AddNode F2, AddNode F5, AddNode F6,
      AddEdge (ParentOfEdge F5 F6), AddEdge (ParentOfEdge F2 F6),
      AddEdge (ParentOfEdge F1 F5), AddEdge (ParentOfEdge Org F2)]"

definition fork_graph :: Graph where
  "fork_graph = build fork_calls"

text \<open>
  A hierarchy with a cycle, \<open>F1 -> F5 -> F1\<close>; \<open>U\<close> is owner of \<open>F1\<close> and, by a later
  edge, viewer of \<open>F2\<close>.
\<close>

definition cycle_calls :: "mutation list" where
  "cycle_calls =
     [AddNode F1, AddNode F5, AddNode F2, AddNode U,
      AddEdge (ParentOfEdge F1 F5), AddEdge (ParentOfEdge F5 F1),
      AddEdge (HasRoleEdge U F1 OWNER), AddEdge (HasRoleEdge U F2 VIEWER)]"

definition cycle_graph :: Graph where
  "cycle_graph = build cycle_calls"

section \<open>Evaluation on concrete graphs\<close>

lemma dict_append_eq: "dict_append d k e = d(k \<mapsto> dict_get d k @ [e])"
  by (simp add: dict_append_def defaultdict_getitem_def dict_get_def split: option.splits)

lemmas graph_eval = build_def build_from_def empty_graph_def add_node_def add_edge_def
  dict_append_eq dict_get_def Org_def F1_def F2_def F5_def F6_def U_def ResourceNode_def
  IdentityNode_def ParentOfEdge_def HasRoleEdge_def iter_parents_def iter_children_def
  iter_out_edges_def iter_in_edges_def get_node_def
  chain_calls_def tree_calls_def diamond_calls_def cycle_calls_def

lemma bfs_loop_Nil: "bfs_loop g ([], visited, out) = Some out"
  by (subst bfs_loop.simps) simp

lemma bfs_loop_Cons:
  "bfs_loop g (c # queue, visited, out) =
   bfs_loop g (for_parents (iter_parents g c) (queue, visited, out))"
  by (subst bfs_loop.simps) simp

section \<open>Node and edge insertion\<close>

text \<open>
  C6: adding a node whose id is already stored changes nothing. Adding the same node twice
  is adding it once; a second node with the same id, whatever its other fields, is
  ignored; the node stored first stays the one \<open>get_node\<close> returns; the number of stored
  nodes does not grow.
\<close>

theorem add_node_idempotent:
  "add_node (add_node g n) n = add_node g n
   \<and> (node_id n' = node_id n \<longrightarrow> add_node (add_node g n) n' = add_node g n)
   \<and> (nodes g (node_id n) = Some m \<longrightarrow>
        add_node g n = g \<and> get_node (add_node g n) (node_id n) = Some m)
   \<and> card (dom (nodes (add_node (add_node g n) n))) = card (dom (nodes (add_node g n)))"
  by (simp add: add_node_def get_node_def)

theorem add_node_idempotent_witness:
  "node_id (ResourceNode ''F1'' PROJECT) = node_id F1
   \<and> add_node (add_node empty_graph F1) (ResourceNode ''F1'' PROJECT) = add_node empty_graph F1
   \<and> nodes (add_node empty_graph F1) (node_id F1) = Some F1
   \<and> add_node (add_node empty_graph F1) F1 = add_node empty_graph F1
   \<and> get_node (add_node (add_node empty_graph F1) (ResourceNode ''F1'' PROJECT)) ''F1'' = Some F1"
  using add_node_idempotent [of empty_graph F1 "ResourceNode ''F1'' PROJECT" F1]
    add_node_idempotent [of "add_node empty_graph F1" "ResourceNode ''F1'' PROJECT" F1 F1]
  by (simp add: add_node_def get_node_def empty_graph_def F1_def ResourceNode_def)

text \<open>
  C3: an edge with an endpoint id that is not stored makes \<open>add_edge\<close> raise
  \<^verbatim>\<open>ValueError\<close> and leaves the whole graph, both indexes included, as it was. An edge
  whose two endpoint ids are stored is appended to the outgoing list of its source id and
  to the incoming list of its target id; no other list and no node changes.
\<close>

theorem add_edge_all_or_nothing:
  "(nodes g (node_id (source e)) = None \<or> nodes g (node_id (target e)) = None \<longrightarrow>
      add_edge g e = (Some ValueError, g))
   \<and> (nodes g (node_id (source e)) \<noteq> None \<and> nodes g (node_id (target e)) \<noteq> None \<longrightarrow>
      fst (add_edge g e) = None
      \<and> nodes (snd (add_edge g e)) = nodes g
      \<and> (\<forall>k. iter_out_edges (snd (add_edge g e)) k =
             (if k = node_id (source e) then iter_out_edges g k @ [e] else iter_out_edges g k))
      \<and> (\<forall>k. iter_in_edges (snd (add_edge g e)) k =
             (if k = node_id (target e) then iter_in_edges g k @ [e] else iter_in_edges g k)))"
  by (auto simp: add_edge_def iter_out_edges_def iter_in_edges_def dict_append_eq dict_get_def)

theorem add_edge_all_or_nothing_witness:
  "nodes chain_graph (node_id (target (ParentOfEdge Org F2))) = None
   \<and> add_edge chain_graph (ParentOfEdge Org F2) = (Some ValueError, chain_graph)
   \<and> nodes chain_graph (node_id (source (ParentOfEdge F2 Org))) = None
   \<and> add_edge chain_graph (ParentOfEdge F2 Org) = (Some ValueError, chain_graph)
   \<and> nodes chain_graph (node_id (source (ParentOfEdge Org F6))) \<noteq> None
   \<and> nodes chain_graph (node_id (target (ParentOfEdge Org F6))) \<noteq> None
   \<and> fst (add_edge chain_graph (ParentOfEdge Org F6)) = None
   \<and> iter_out_edges (snd (add_edge chain_graph (ParentOfEdge Org F6))) ''Org'' =
       [ParentOfEdge Org F1, ParentOfEdge Org F6]
   \<and> iter_in_edges (snd (add_edge chain_graph (ParentOfEdge Org F6))) ''F6'' =
       [ParentOfEdge F5 F6, ParentOfEdge Org F6]"
proof -
  have a: "nodes chain_graph (node_id (target (ParentOfEdge Org F2))) = None"
    and b: "nodes chain_graph (node_id (source (ParentOfEdge F2 Org))) = None"
    and c: "nodes chain_graph (node_id (source (ParentOfEdge Org F6))) \<noteq> None"
    and d: "nodes chain_graph (node_id (target (ParentOfEdge Org F6))) \<noteq> None"
    and e: "iter_out_edges chain_graph ''Org'' = [ParentOfEdge Org F1]"
    and f: "iter_in_edges chain_graph ''F6'' = [ParentOfEdge F5 F6]"
    and i: "node_id (source (ParentOfEdge Org F6)) = ''Org''"
      "node_id (target (ParentOfEdge Org F6)) = ''F6''"
    by (simp_all add: chain_graph_def graph_eval)
  show ?thesis
    using add_edge_all_or_nothing [of chain_graph "ParentOfEdge Org F2"]
      add_edge_all_or_nothing [of chain_graph "ParentOfEdge F2 Org"]
      add_edge_all_or_nothing [of chain_graph "ParentOfEdge Org F6"]
      a b c d e f i
    by simp
qed

section \<open>Errors of the permission query\<close>

lemma for_children_error:
  "(\<And>c e. rec c = Inl e \<Longrightarrow> e = RecursionError) \<Longrightarrow> for_children rec cs = Inl e \<Longrightarrow>
   e = RecursionError"
  by (induction cs arbitrary: e) (auto split: sum.splits)

lemma iter_descendants_error: "iter_descendants d g i = Inl e \<Longrightarrow> e = RecursionError"
proof (induction d arbitrary: i e)
  case 0
  then show ?case by simp
next
  case (Suc d)
  then show ?case using for_children_error [of "\<lambda>c. iter_descendants d g c"] by auto
qed

lemma for_out_edges_error:
  "for_out_edges d g es = Inl e \<Longrightarrow> e = RecursionError \<or> e = AttributeError"
  by (induction es arbitrary: e)
     (auto split: sum.splits option.splits if_splits dest: iter_descendants_error)

lemma for_out_edges_no_role:
  "\<forall>e\<in>set es. etype e \<noteq> HAS_ROLE \<Longrightarrow> for_out_edges d g es = Inr []"
  by (induction es) auto

text \<open>
  C5: \<open>iter_user_permissions\<close> raises \<^verbatim>\<open>NodeNotFoundError\<close> exactly when the id names no
  stored node (and then the error carries that id). When the node is stored and none of
  its outgoing edges is a \<^verbatim>\<open>HAS_ROLE\<close> edge, the result is the empty sequence, whatever
  the recursion depth available.
\<close>

theorem iter_user_permissions_not_found:
  "((\<exists>j. iter_user_permissions depth g i = Inl (NodeNotFoundError j)) \<longleftrightarrow> get_node g i = None)
   \<and> (get_node g i = None \<longrightarrow> iter_user_permissions depth g i = Inl (NodeNotFoundError i))
   \<and> (get_node g i \<noteq> None \<and> (\<forall>e\<in>set (iter_out_edges g i). etype e \<noteq> HAS_ROLE) \<longrightarrow>
        iter_user_permissions depth g i = Inr [])"
  by (auto simp: iter_user_permissions_def for_out_edges_no_role split: option.splits
      dest: for_out_edges_error)

theorem iter_user_permissions_not_found_witness:
  "get_node chain_graph ''ghost'' = None
   \<and> iter_user_permissions 0 chain_graph ''ghost'' = Inl (NodeNotFoundError ''ghost'')
   \<and> get_node chain_graph ''F6'' \<noteq> None
   \<and> iter_out_edges chain_graph ''F6'' = []
   \<and> iter_user_permissions 0 chain_graph ''F6'' = Inr []
   \<and> get_node chain_graph ''F1'' \<noteq> None
   \<and> iter_out_edges chain_graph ''F1'' = [ParentOfEdge F1 F5]
   \<and> iter_user_permissions 0 chain_graph ''F1'' = Inr []"
proof -
  have a: "get_node chain_graph ''ghost'' = None"
    and b: "get_node chain_graph ''F6'' \<noteq> None"
    and c: "iter_out_edges chain_graph ''F6'' = []"
    and d: "get_node chain_graph ''F1'' \<noteq> None"
    and e: "iter_out_edges chain_graph ''F1'' = [ParentOfEdge F1 F5]"
    by (simp_all add: chain_graph_def graph_eval)
  have f: "etype (ParentOfEdge F1 F5) \<noteq> HAS_ROLE" by (simp add: ParentOfEdge_def)
  show ?thesis
    using iter_user_permissions_not_found [of 0 chain_graph "''ghost''"]
      iter_user_permissions_not_found [of 0 chain_graph "''F6''"]
      iter_user_permissions_not_found [of 0 chain_graph "''F1''"]
      a b c d e f
    by simp
qed

section \<open>Reads do not change the graph\<close>

lemma get_node_st_eq: "get_node_st g i = (get_node g i, g)"
  by (simp add: get_node_st_def get_node_def dict_get_call_def)

lemma iter_out_edges_st_eq: "iter_out_edges_st g i = (iter_out_edges g i, g)"
  by (simp add: iter_out_edges_st_def iter_out_edges_def dict_get_default_call_def dict_get_def
      split: option.splits)

lemma iter_in_edges_st_eq: "iter_in_edges_st g i = (iter_in_edges g i, g)"
  by (simp add: iter_in_edges_st_def iter_in_edges_def dict_get_default_call_def dict_get_def
      split: option.splits)

lemma iter_children_st_eq: "iter_children_st g i = (iter_children g i, g)"
  by (simp add: iter_children_st_def iter_children_def dict_get_default_call_def dict_get_def
      split: option.splits)

lemma iter_parents_st_eq: "iter_parents_st g i = (iter_parents g i, g)"
  by (simp add: iter_parents_st_def iter_parents_def dict_get_default_call_def dict_get_def
      split: option.splits)

lemma for_children_st_eq:
  "(\<And>c. rec_st g c = (rec c, g)) \<Longrightarrow>
   for_children_st rec_st g cs = (for_children rec cs, g)"
  by (induction cs) (auto split: sum.splits)

lemma iter_descendants_st_eq:
  "iter_descendants_st depth g i = (iter_descendants depth g i, g)"
proof (induction depth arbitrary: i)
  case 0
  show ?case by simp
next
  case (Suc depth)
  have "for_children_st (\<lambda>h c. iter_descendants_st depth h c) g (iter_children g i) =
        (for_children (\<lambda>c. iter_descendants depth g c) (iter_children g i), g)"
    by (rule for_children_st_eq) (rule Suc)
  then show ?case by (simp add: iter_children_st_eq)
qed

lemma for_out_edges_st_eq:
  "for_out_edges_st depth g es = (for_out_edges depth g es, g)"
  by (induction es) (auto simp: iter_descendants_st_eq split: option.splits sum.splits)

lemma iter_user_permissions_st_eq:
  "iter_user_permissions_st depth g i = (iter_user_permissions depth g i, g)"
  by (simp add: iter_user_permissions_st_def iter_user_permissions_def get_node_st_eq
      iter_out_edges_st_eq for_out_edges_st_eq split: option.splits)

lemma bfs_loop_st_Nil: "bfs_loop_st (g, [], visited, out) = Some (out, g)"
  by (subst bfs_loop_st.simps) simp

lemma bfs_loop_st_Cons:
  "bfs_loop_st (g, c # queue, visited, out) =
   bfs_loop_st (g, for_parents (iter_parents g c) (queue, visited, out))"
  by (subst bfs_loop_st.simps) (simp add: iter_parents_st_eq)

lemma bfs_loop_st_sound:
  "bfs_loop_st s = Some r \<Longrightarrow> r = (the (bfs_loop (fst s) (snd s)), fst s) \<and> bfs_loop (fst s) (snd s) \<noteq> None"
proof (induction s r rule: bfs_loop_st.raw_induct [rotated 1, consumes 1])
  case (1 rec s r)
  obtain g queue visited out where s: "s = (g, queue, visited, out)" by (cases s) auto
  show ?case
  proof (cases queue)
    case Nil
    with 1(2) s show ?thesis by (simp add: bfs_loop_Nil)
  next
    case (Cons c q)
    with 1(2) s have "rec (g, for_parents (iter_parents g c) (q, visited, out)) = Some r"
      by (simp add: iter_parents_st_eq)
    from 1(1) [OF this] show ?thesis by (simp add: s Cons bfs_loop_Cons)
  qed
qed

lemma bfs_loop_complete:
  "bfs_loop g s = Some ys \<Longrightarrow> bfs_loop_st (g, s) = Some (ys, g)"
proof (induction g s ys rule: bfs_loop.raw_induct [rotated 1, consumes 1])
  case (1 rec g s ys)
  obtain queue visited out where s: "s = (queue, visited, out)" by (cases s) auto
  show ?case
  proof (cases queue)
    case Nil
    with 1(2) s show ?thesis by (simp add: bfs_loop_st_Nil)
  next
    case (Cons c q)
    with 1(2) s have "rec g (for_parents (iter_parents g c) (q, visited, out)) = Some ys"
      by simp
    from 1(1) [OF this] show ?thesis by (simp add: s Cons bfs_loop_st_Cons)
  qed
qed

lemma iter_resource_hierarchy_st_eq:
  "iter_resource_hierarchy_st g rid = map_option (\<lambda>ys. (ys, g)) (iter_resource_hierarchy g rid)"
proof (cases "iter_resource_hierarchy g rid")
  case (Some ys)
  then show ?thesis
    using bfs_loop_complete [of g "([rid], {}, [])" ys]
    by (simp add: iter_resource_hierarchy_st_def iter_resource_hierarchy_def)
next
  case None
  have "iter_resource_hierarchy_st g rid = None"
  proof (rule ccontr)
    assume "iter_resource_hierarchy_st g rid \<noteq> None"
    then obtain r where "bfs_loop_st (g, [rid], {}, []) = Some r"
      by (auto simp: iter_resource_hierarchy_st_def)
    from bfs_loop_st_sound [OF this] None show False
      by (simp add: iter_resource_hierarchy_def)
  qed
  with None show ?thesis by simp
qed

text \<open>
  C10: every read method (\<open>get_node\<close>, the four edge and neighbour iterators, the
  descendant traversal, \<open>iter_resource_hierarchy\<close> and \<open>iter_user_permissions\<close>), run
  with the graph threaded through all its dictionary accesses, returns the answer of the
  corresponding function above and leaves the graph as it found it: the node map and
  both indexes are the same before and after, for every graph and every id, whether the
  call returns or raises. For \<open>iter_resource_hierarchy\<close> the call ends exactly when the
  loop ends.
\<close>

theorem reads_leave_graph_unchanged:
  "get_node_st g i = (get_node g i, g)
   \<and> iter_out_edges_st g i = (iter_out_edges g i, g)
   \<and> iter_in_edges_st g i = (iter_in_edges g i, g)
   \<and> iter_children_st g i = (iter_children g i, g)
   \<and> iter_parents_st g i = (iter_parents g i, g)
   \<and> iter_descendants_st depth g i = (iter_descendants depth g i, g)
   \<and> iter_resource_hierarchy_st g i = map_option (\<lambda>ys. (ys, g)) (iter_resource_hierarchy g i)
   \<and> iter_user_permissions_st depth g i = (iter_user_permissions depth g i, g)"
  by (intro conjI get_node_st_eq iter_out_edges_st_eq iter_in_edges_st_eq iter_children_st_eq
      iter_parents_st_eq iter_descendants_st_eq iter_resource_hierarchy_st_eq
      iter_user_permissions_st_eq)

theorem reads_leave_graph_unchanged_witness:
  "out_edges tree_graph ''ghost'' = None
   \<and> get_node_st tree_graph ''ghost'' = (None, tree_graph)
   \<and> iter_out_edges_st tree_graph ''ghost'' = ([], tree_graph)
   \<and> iter_in_edges_st tree_graph ''ghost'' = ([], tree_graph)
   \<and> iter_children_st tree_graph ''Org'' = ([F1, F2], tree_graph)
   \<and> iter_parents_st tree_graph ''F5'' = ([F1], tree_graph)
   \<and> iter_descendants_st 3 tree_graph ''Org'' = (Inr [F1, F5, F2], tree_graph)
   \<and> iter_descendants_st 1 tree_graph ''Org'' = (Inl RecursionError, tree_graph)
   \<and> iter_resource_hierarchy_st tree_graph ''F5'' = Some ([F1, Org], tree_graph)
   \<and> iter_user_permissions_st 3 tree_graph ''ghost'' =
       (Inl (NodeNotFoundError ''ghost''), tree_graph)
   \<and> snd (defaultdict_getitem (out_edges tree_graph) ''ghost'') ''ghost'' = Some []"
proof -
  have a: "out_edges tree_graph ''ghost'' = None" "get_node tree_graph ''ghost'' = None"
    "iter_out_edges tree_graph ''ghost'' = []" "iter_in_edges tree_graph ''ghost'' = []"
    "iter_children tree_graph ''Org'' = [F1, F2]" "iter_parents tree_graph ''F5'' = [F1]"
    by (simp_all add: tree_graph_def graph_eval)
  have b: "iter_descendants 3 tree_graph ''Org'' = Inr [F1, F5, F2]"
    "iter_descendants 1 tree_graph ''Org'' = Inl RecursionError"
    by (simp_all add: tree_graph_def graph_eval numeral_3_eq_3)
  have c: "iter_resource_hierarchy tree_graph ''F5'' = Some [F1, Org]"
    by (simp add: iter_resource_hierarchy_def tree_graph_def graph_eval bfs_loop_Nil bfs_loop_Cons)
  have d: "iter_user_permissions 3 tree_graph ''ghost'' = Inl (NodeNotFoundError ''ghost'')"
    by (simp add: iter_user_permissions_def a)
  have e: "snd (defaultdict_getitem (out_edges tree_graph) ''ghost'') ''ghost'' = Some []"
    by (simp add: defaultdict_getitem_def a)
  note T = reads_leave_graph_unchanged [of tree_graph]
  show ?thesis
    using T [of "''ghost''" 3] T [of "''Org''" 3] T [of "''Org''" 1] T [of "''F5''" 3] a b c d e
    by simp
qed

section \<open>Graphs built by calls\<close>

lemma build_from_Nil: "build_from g [] = g"
  by (simp add: build_from_def)

lemma build_from_Cons: "build_from g (m # ms) = build_from (mutate g m) ms"
  by (simp add: build_from_def)

lemma iter_out_edges_build_from:
  "iter_out_edges (build_from g ms) k =
   iter_out_edges g k @ filter (\<lambda>e. node_id (source e) = k) (accepted_from g ms)"
proof (induction ms arbitrary: g)
  case Nil
  then show ?case by (simp add: build_from_Nil)
next
  case (Cons m ms)
  show ?case
  proof (cases m)
    case (AddNode n)
    then show ?thesis
      by (simp add: build_from_Cons Cons.IH) (simp add: add_node_def iter_out_edges_def)
  next
    case (AddEdge e)
    then show ?thesis
      by (simp add: build_from_Cons Cons.IH split: option.splits)
         (auto simp: add_edge_def iter_out_edges_def dict_append_eq dict_get_def)
  qed
qed

lemma iter_in_edges_build_from:
  "iter_in_edges (build_from g ms) k =
   iter_in_edges g k @ filter (\<lambda>e. node_id (target e) = k) (accepted_from g ms)"
proof (induction ms arbitrary: g)
  case Nil
  then show ?case by (simp add: build_from_Nil)
next
  case (Cons m ms)
  show ?case
  proof (cases m)
    case (AddNode n)
    then show ?thesis
      by (simp add: build_from_Cons Cons.IH) (simp add: add_node_def iter_in_edges_def)
  next
    case (AddEdge e)
    then show ?thesis
      by (simp add: build_from_Cons Cons.IH split: option.splits)
         (auto simp: add_edge_def iter_in_edges_def dict_append_eq dict_get_def)
  qed
qed

lemma nodes_mutate_mono: "nodes g k = Some n \<Longrightarrow> nodes (mutate g m) k = Some n"
  by (cases m) (auto simp: add_node_def add_edge_def)

lemma nodes_build_from_mono: "nodes g k = Some n \<Longrightarrow> nodes (build_from g ms) k = Some n"
  by (induction ms arbitrary: g) (auto simp: build_from_Nil build_from_Cons nodes_mutate_mono)

lemma accepted_from_stored:
  "e \<in> set (accepted_from g ms) \<Longrightarrow>
   nodes (build_from g ms) (node_id (source e)) \<noteq> None \<and>
   nodes (build_from g ms) (node_id (target e)) \<noteq> None"
proof (induction ms arbitrary: g)
  case Nil
  then show ?case by simp
next
  case (Cons m ms)
  show ?case
  proof (cases m)
    case (AddNode n)
    with Cons show ?thesis by (simp add: build_from_Cons)
  next
    case (AddEdge e')
    show ?thesis
    proof (cases "e \<in> set (accepted_from (snd (add_edge g e')) ms)")
      case True
      with Cons.IH AddEdge show ?thesis by (simp add: build_from_Cons)
    next
      case False
      with Cons.prems AddEdge have ok: "fst (add_edge g e') = None" and e: "e = e'"
        by (auto split: option.splits)
      from ok have "nodes g (node_id (source e')) \<noteq> None" "nodes g (node_id (target e')) \<noteq> None"
        by (auto simp: add_edge_def split: if_splits)
      then obtain a b where "nodes g (node_id (source e')) = Some a" "nodes g (node_id (target e')) = Some b"
        by auto
      then show ?thesis using e nodes_build_from_mono [of g _ _ "m # ms"] by simp
    qed
  qed
qed

lemma finite_dom_dict_append: "finite (dom d) \<Longrightarrow> finite (dom (dict_append d k e))"
  by (simp add: dict_append_eq)

lemma finite_dom_mutate:
  "finite (dom (out_edges g)) \<and> finite (dom (in_edges g)) \<Longrightarrow>
   finite (dom (out_edges (mutate g m))) \<and> finite (dom (in_edges (mutate g m)))"
  by (cases m) (auto simp: add_node_def add_edge_def finite_dom_dict_append)

lemma finite_dom_build_from:
  "finite (dom (out_edges g)) \<and> finite (dom (in_edges g)) \<Longrightarrow>
   finite (dom (out_edges (build_from g ms))) \<and> finite (dom (in_edges (build_from g ms)))"
proof (induction ms arbitrary: g)
  case Nil
  then show ?case by (simp add: build_from_Nil)
next
  case (Cons m ms)
  from Cons.IH [OF finite_dom_mutate [OF Cons.prems]] show ?case by (simp add: build_from_Cons)
qed

lemma index_mset_dict_append:
  assumes "finite (dom d)"
  shows "index_mset (dict_append d k e) = index_mset d + {#e#}"
proof (cases "k \<in> dom d")
  case True
  have dom: "dom (dict_append d k e) = dom d" using True by (auto simp: dict_append_eq)
  have rest: "(\<Sum>j \<in> dom d - {k}. mset (dict_get (dict_append d k e) j)) =
              (\<Sum>j \<in> dom d - {k}. mset (dict_get d j))"
    by (rule sum.cong) (auto simp: dict_append_eq dict_get_def)
  have "index_mset (dict_append d k e) =
        mset (dict_get (dict_append d k e) k) + (\<Sum>j \<in> dom d - {k}. mset (dict_get (dict_append d k e) j))"
    unfolding index_mset_def dom using assms True by (simp add: sum.remove)
  also have "\<dots> = (mset (dict_get d k) + {#e#}) + (\<Sum>j \<in> dom d - {k}. mset (dict_get d j))"
    by (simp add: rest) (simp add: dict_append_eq dict_get_def)
  also have "\<dots> = index_mset d + {#e#}"
    unfolding index_mset_def using assms True by (simp add: sum.remove [of _ k])
  finally show ?thesis .
next
  case False
  have dom: "dom (dict_append d k e) = insert k (dom d)" by (auto simp: dict_append_eq)
  have rest: "(\<Sum>j \<in> dom d. mset (dict_get (dict_append d k e) j)) = (\<Sum>j \<in> dom d. mset (dict_get d j))"
    by (rule sum.cong) (use False in \<open>auto simp: dict_append_eq dict_get_def\<close>)
  have "dict_get d k = []" using False by (auto simp: dict_get_def split: option.splits)
  then have "mset (dict_get (dict_append d k e) k) = {#e#}"
    by (simp add: dict_append_eq dict_get_def)
  then show ?thesis
    unfolding index_mset_def dom using assms False by (simp add: rest)
qed

lemma index_mset_build_from:
  "finite (dom (out_edges g)) \<and> finite (dom (in_edges g)) \<Longrightarrow>
   index_mset (out_edges (build_from g ms)) = index_mset (out_edges g) + mset (accepted_from g ms) \<and>
   index_mset (in_edges (build_from g ms)) = index_mset (in_edges g) + mset (accepted_from g ms)"
proof (induction ms arbitrary: g)
  case Nil
  then show ?case by (simp add: build_from_Nil)
next
  case (Cons m ms)
  note fin = finite_dom_mutate [OF Cons.prems, of m]
  show ?case
  proof (cases m)
    case (AddNode n)
    with Cons.IH [OF fin] show ?thesis
      by (simp add: build_from_Cons) (simp add: add_node_def)
  next
    case (AddEdge e)
    show ?thesis
    proof (cases "fst (add_edge g e)")
      case None
      then have "out_edges (snd (add_edge g e)) = dict_append (out_edges g) (node_id (source e)) e"
        "in_edges (snd (add_edge g e)) = dict_append (in_edges g) (node_id (target e)) e"
        by (auto simp: add_edge_def split: if_splits)
      with Cons.IH [OF fin] AddEdge None Cons.prems show ?thesis
        by (simp add: build_from_Cons index_mset_dict_append)
    next
      case (Some err)
      then have "snd (add_edge g e) = g" by (auto simp: add_edge_def split: if_splits)
      with Cons.IH [OF fin] AddEdge Some show ?thesis
        by (simp add: build_from_Cons)
    qed
  qed
qed

lemma index_mset_empty: "index_mset Map.empty = {#}"
  by (simp add: index_mset_def)

lemma count_list_filter: "count_list (filter P xs) e = (if P e then count_list xs e else 0)"
  by (induction xs) auto

text \<open>
  C8: the four plain iterators return a (possibly empty) list for every id and never an
  error. For an id that is not a key of the index the list is empty, and on a graph built
  by calls an id that names no stored node gives the empty list from all four. On such a
  graph the edges come in the order of the calls that inserted them, and the children and
  parents are the endpoints of the \<^verbatim>\<open>PARENT_OF\<close> edges among them, in the same order.
\<close>

theorem iterators_total_insertion_order:
  "(out_edges g i = None \<longrightarrow> iter_out_edges g i = [] \<and> iter_children g i = [])
   \<and> (in_edges g i = None \<longrightarrow> iter_in_edges g i = [] \<and> iter_parents g i = [])
   \<and> (get_node (build ms) i = None \<longrightarrow>
        iter_out_edges (build ms) i = [] \<and> iter_in_edges (build ms) i = [] \<and>
        iter_children (build ms) i = [] \<and> iter_parents (build ms) i = [])
   \<and> iter_out_edges (build ms) i = filter (\<lambda>e. node_id (source e) = i) (accepted ms)
   \<and> iter_in_edges (build ms) i = filter (\<lambda>e. node_id (target e) = i) (accepted ms)
   \<and> iter_children (build ms) i =
       map target (filter (\<lambda>e. etype e = PARENT_OF) (iter_out_edges (build ms) i))
   \<and> iter_parents (build ms) i =
       map source (filter (\<lambda>e. etype e = PARENT_OF) (iter_in_edges (build ms) i))"
proof -
  have out: "iter_out_edges (build ms) i = filter (\<lambda>e. node_id (source e) = i) (accepted ms)"
    using iter_out_edges_build_from [of empty_graph ms i]
    by (simp add: build_def accepted_def) (simp add: iter_out_edges_def empty_graph_def dict_get_def)
  have inn: "iter_in_edges (build ms) i = filter (\<lambda>e. node_id (target e) = i) (accepted ms)"
    using iter_in_edges_build_from [of empty_graph ms i]
    by (simp add: build_def accepted_def) (simp add: iter_in_edges_def empty_graph_def dict_get_def)
  have ch: "\<And>h. iter_children h i = map target (filter (\<lambda>e. etype e = PARENT_OF) (iter_out_edges h i))"
    by (simp add: iter_children_def iter_out_edges_def)
  have pa: "\<And>h. iter_parents h i = map source (filter (\<lambda>e. etype e = PARENT_OF) (iter_in_edges h i))"
    by (simp add: iter_parents_def iter_in_edges_def)
  have unknown: "iter_out_edges (build ms) i = [] \<and> iter_in_edges (build ms) i = []"
    if "get_node (build ms) i = None"
  proof -
    have "node_id (source e) \<noteq> i \<and> node_id (target e) \<noteq> i" if "e \<in> set (accepted ms)" for e
      using that \<open>get_node (build ms) i = None\<close> accepted_from_stored [of e empty_graph ms]
      by (auto simp: build_def accepted_def get_node_def)
    then show ?thesis by (simp add: out inn)
  qed
  have a: "out_edges g i = None \<longrightarrow> iter_out_edges g i = [] \<and> iter_children g i = []"
    by (simp add: iter_out_edges_def iter_children_def dict_get_def)
  have b: "in_edges g i = None \<longrightarrow> iter_in_edges g i = [] \<and> iter_parents g i = []"
    by (simp add: iter_in_edges_def iter_parents_def dict_get_def)
  have c: "get_node (build ms) i = None \<longrightarrow>
        iter_out_edges (build ms) i = [] \<and> iter_in_edges (build ms) i = [] \<and>
        iter_children (build ms) i = [] \<and> iter_parents (build ms) i = []"
    using unknown by (simp add: ch pa)
  show ?thesis using a b c out inn ch pa by blast
qed

theorem iterators_total_insertion_order_witness:
  "out_edges tree_graph ''ghost'' = None
   \<and> in_edges tree_graph ''ghost'' = None
   \<and> get_node tree_graph ''ghost'' = None
   \<and> iter_out_edges tree_graph ''ghost'' = []
   \<and> iter_in_edges tree_graph ''ghost'' = []
   \<and> iter_children tree_graph ''ghost'' = []
   \<and> iter_parents tree_graph ''ghost'' = []
   \<and> accepted tree_calls = [ParentOfEdge Org F1, ParentOfEdge Org F2, ParentOfEdge F1 F5]
   \<and> iter_out_edges tree_graph ''Org'' = [ParentOfEdge Org F1, ParentOfEdge Org F2]
   \<and> iter_in_edges tree_graph ''F5'' = [ParentOfEdge F1 F5]
   \<and> iter_children tree_graph ''Org'' = [F1, F2]
   \<and> iter_parents tree_graph ''F5'' = [F1]"
proof -
  have a: "out_edges tree_graph ''ghost'' = None" "in_edges tree_graph ''ghost'' = None"
    "get_node tree_graph ''ghost'' = None"
    by (simp_all add: tree_graph_def graph_eval)
  have b: "accepted tree_calls = [ParentOfEdge Org F1, ParentOfEdge Org F2, ParentOfEdge F1 F5]"
    by (simp add: accepted_def graph_eval)
  have c: "node_id (source (ParentOfEdge Org F1)) = ''Org''" "node_id (source (ParentOfEdge Org F2)) = ''Org''"
    "node_id (source (ParentOfEdge F1 F5)) = ''F1''" "node_id (target (ParentOfEdge Org F1)) = ''F1''"
    "node_id (target (ParentOfEdge Org F2)) = ''F2''" "node_id (target (ParentOfEdge F1 F5)) = ''F5''"
    "etype (ParentOfEdge Org F1) = PARENT_OF" "etype (ParentOfEdge Org F2) = PARENT_OF"
    "etype (ParentOfEdge F1 F5) = PARENT_OF"
    "target (ParentOfEdge Org F1) = F1" "target (ParentOfEdge Org F2) = F2"
    "source (ParentOfEdge F1 F5) = F1"
    by (simp_all add: graph_eval)
  show ?thesis
    using iterators_total_insertion_order [of tree_graph "''ghost''" tree_calls]
      iterators_total_insertion_order [of tree_graph "''Org''" tree_calls]
      iterators_total_insertion_order [of tree_graph "''F5''" tree_calls]
      a b c
    by (simp add: tree_graph_def [symmetric])
qed

text \<open>
  C9: after any sequence of calls to \<open>add_node\<close> and \<open>add_edge\<close> on a new graph, every
  edge in the outgoing list of a key has that key as its source id, every edge in the
  incoming list of a key has that key as its target id, and both endpoint ids of every
  indexed edge name stored nodes. An edge occurs in the outgoing list of its source id
  and in the incoming list of its target id as many times as a call inserted it, so the
  two indexes hold the same multiset of edges: the edges of the calls that did not raise.
\<close>

theorem indexes_consistent:
  "(\<forall>k. \<forall>e\<in>set (iter_out_edges (build ms) k).
        node_id (source e) = k
        \<and> get_node (build ms) (node_id (source e)) \<noteq> None
        \<and> get_node (build ms) (node_id (target e)) \<noteq> None)
   \<and> (\<forall>k. \<forall>e\<in>set (iter_in_edges (build ms) k).
        node_id (target e) = k
        \<and> get_node (build ms) (node_id (source e)) \<noteq> None
        \<and> get_node (build ms) (node_id (target e)) \<noteq> None)
   \<and> (\<forall>e. count_list (iter_out_edges (build ms) (node_id (source e))) e = count_list (accepted ms) e
          \<and> count_list (iter_in_edges (build ms) (node_id (target e))) e = count_list (accepted ms) e)
   \<and> index_mset (out_edges (build ms)) = mset (accepted ms)
   \<and> index_mset (in_edges (build ms)) = mset (accepted ms)
   \<and> index_mset (out_edges (build ms)) = index_mset (in_edges (build ms))"
proof -
  have out: "iter_out_edges (build ms) k = filter (\<lambda>e. node_id (source e) = k) (accepted ms)" for k
    using iter_out_edges_build_from [of empty_graph ms k]
    by (simp add: build_def accepted_def) (simp add: iter_out_edges_def empty_graph_def dict_get_def)
  have inn: "iter_in_edges (build ms) k = filter (\<lambda>e. node_id (target e) = k) (accepted ms)" for k
    using iter_in_edges_build_from [of empty_graph ms k]
    by (simp add: build_def accepted_def) (simp add: iter_in_edges_def empty_graph_def dict_get_def)
  have stored: "get_node (build ms) (node_id (source e)) \<noteq> None \<and>
                get_node (build ms) (node_id (target e)) \<noteq> None" if "e \<in> set (accepted ms)" for e
    using that accepted_from_stored [of e empty_graph ms]
    by (simp add: build_def accepted_def get_node_def)
  have fin: "finite (dom (out_edges empty_graph)) \<and> finite (dom (in_edges empty_graph))"
    by (simp add: empty_graph_def)
  have ms: "index_mset (out_edges (build ms)) = mset (accepted ms)"
    "index_mset (in_edges (build ms)) = mset (accepted ms)"
    using index_mset_build_from [OF fin, of ms]
    by (simp_all add: build_def accepted_def) (simp_all add: empty_graph_def index_mset_empty)
  have a: "\<forall>k. \<forall>e\<in>set (iter_out_edges (build ms) k).
        node_id (source e) = k
        \<and> get_node (build ms) (node_id (source e)) \<noteq> None
        \<and> get_node (build ms) (node_id (target e)) \<noteq> None"
    using stored by (auto simp: out)
  have b: "\<forall>k. \<forall>e\<in>set (iter_in_edges (build ms) k).
        node_id (target e) = k
        \<and> get_node (build ms) (node_id (source e)) \<noteq> None
        \<and> get_node (build ms) (node_id (target e)) \<noteq> None"
    using stored by (auto simp: inn)
  have c: "\<forall>e. count_list (iter_out_edges (build ms) (node_id (source e))) e = count_list (accepted ms) e
          \<and> count_list (iter_in_edges (build ms) (node_id (target e))) e = count_list (accepted ms) e"
    by (simp add: out inn count_list_filter)
  show ?thesis by (intro conjI a b c ms) (simp add: ms)
qed

theorem indexes_consistent_witness:
  "iter_out_edges tree_graph ''Org'' = [ParentOfEdge Org F1, ParentOfEdge Org F2]
   \<and> node_id (source (ParentOfEdge Org F2)) = ''Org''
   \<and> get_node tree_graph (node_id (source (ParentOfEdge Org F2))) \<noteq> None
   \<and> get_node tree_graph (node_id (target (ParentOfEdge Org F2))) \<noteq> None
   \<and> iter_in_edges tree_graph ''F2'' = [ParentOfEdge Org F2]
   \<and> node_id (target (ParentOfEdge Org F2)) = ''F2''
   \<and> count_list (iter_out_edges tree_graph ''Org'') (ParentOfEdge Org F2) = 1
   \<and> count_list (iter_in_edges tree_graph ''F2'') (ParentOfEdge Org F2) = 1
   \<and> index_mset (out_edges tree_graph) =
       {#ParentOfEdge Org F1, ParentOfEdge Org F2, ParentOfEdge F1 F5#}
   \<and> index_mset (in_edges tree_graph) =
       {#ParentOfEdge Org F1, ParentOfEdge Org F2, ParentOfEdge F1 F5#}"
proof -
  have a: "iter_out_edges tree_graph ''Org'' = [ParentOfEdge Org F1, ParentOfEdge Org F2]"
    "iter_in_edges tree_graph ''F2'' = [ParentOfEdge Org F2]"
    by (simp_all add: tree_graph_def graph_eval)
  have b: "accepted tree_calls = [ParentOfEdge Org F1, ParentOfEdge Org F2, ParentOfEdge F1 F5]"
    by (simp add: accepted_def graph_eval)
  have c: "node_id (source (ParentOfEdge Org F2)) = ''Org''"
    "node_id (target (ParentOfEdge Org F2)) = ''F2''"
    by (simp_all add: graph_eval)
  have d: "ParentOfEdge Org F2 \<noteq> ParentOfEdge Org F1" "ParentOfEdge Org F2 \<noteq> ParentOfEdge F1 F5"
    by (simp_all add: graph_eval)
  note T = indexes_consistent [of tree_calls, folded tree_graph_def]
  from T have o: "\<forall>e\<in>set (iter_out_edges tree_graph ''Org'').
        get_node tree_graph (node_id (source e)) \<noteq> None
        \<and> get_node tree_graph (node_id (target e)) \<noteq> None"
    by blast
  from T have cnt: "count_list (iter_out_edges tree_graph (node_id (source (ParentOfEdge Org F2))))
        (ParentOfEdge Org F2) = count_list (accepted tree_calls) (ParentOfEdge Org F2)"
    "count_list (iter_in_edges tree_graph (node_id (target (ParentOfEdge Org F2))))
        (ParentOfEdge Org F2) = count_list (accepted tree_calls) (ParentOfEdge Org F2)"
    by blast+
  from T have m: "index_mset (out_edges tree_graph) = mset (accepted tree_calls)"
    "index_mset (in_edges tree_graph) = mset (accepted tree_calls)"
    by blast+
  from o have o': "get_node tree_graph (node_id (source (ParentOfEdge Org F2))) \<noteq> None
        \<and> get_node tree_graph (node_id (target (ParentOfEdge Org F2))) \<noteq> None"
    by (simp add: a)
  show ?thesis
    using o' cnt m a c d by (simp add: b)
qed

section \<open>The ancestor traversal\<close>

lemma for_parents_fresh:
  "for_parents ps (queue, visited, out) =
   (queue @ map node_id (fresh ps visited), visited \<union> node_id ` set (fresh ps visited),
    out @ fresh ps visited)"
  by (induction ps arbitrary: queue visited out) auto

lemma ids_fresh: "node_id ` set (fresh ps visited) = node_id ` set ps - visited"
  by (induction ps arbitrary: visited) auto

lemma distinct_fresh: "distinct (map node_id (fresh ps visited))"
  by (induction ps arbitrary: visited) (auto simp: ids_fresh)

lemma ids_scan:
  "node_id ` set (scan g cs visited) = parent_rel g `` set cs - visited"
proof (induction cs arbitrary: visited)
  case Nil
  then show ?case by simp
next
  case (Cons c cs)
  have "parent_rel g `` {c} = node_id ` set (iter_parents g c)"
    by (auto simp: parent_rel_def)
  then show ?case using Cons.IH by (auto simp: ids_fresh image_Un)
qed

lemma distinct_scan: "distinct (map node_id (scan g cs visited))"
proof (induction cs arbitrary: visited)
  case Nil
  then show ?case by simp
next
  case (Cons c cs)
  show ?case using Cons.IH by (auto simp: distinct_fresh ids_scan ids_fresh)
qed


lemma bfs_loop_scan:
  "bfs_loop g (cs @ pending, visited, out) =
   bfs_loop g (pending @ map node_id (scan g cs visited),
               visited \<union> node_id ` set (scan g cs visited), out @ scan g cs visited)"
proof (induction cs arbitrary: pending visited out)
  case Nil
  then show ?case by simp
next
  case (Cons c cs)
  show ?case
    by (simp add: bfs_loop_Cons for_parents_fresh Cons.IH image_Un Un_assoc)
qed

lemma bfs_loop_level: "bfs_loop g (level g rid (Suc k)) = bfs_loop g (level g rid k)"
proof -
  obtain frontier visited out where l: "level g rid k = (frontier, visited, out)"
    by (cases "level g rid k") auto
  show ?thesis using bfs_loop_scan [of g frontier "[]" visited out] by (simp add: l)
qed

lemma hierarchy_level: "iter_resource_hierarchy g rid = bfs_loop g (level g rid k)"
proof (induction k)
  case 0
  show ?case by (simp add: iter_resource_hierarchy_def)
next
  case (Suc k)
  then show ?case by (simp only: bfs_loop_level)
qed

lemma hierarchy_done:
  "fst (level g rid k) = [] \<Longrightarrow>
   iter_resource_hierarchy g rid = Some (snd (snd (level g rid k)))"
  by (cases "level g rid k") (simp add: hierarchy_level [of g rid k] bfs_loop_Nil)


subsection \<open>What each level holds\<close>

lemma reach_0: "reach g rid 0 = {rid}"
  by (auto simp: reach_def)

lemma reach_Suc: "reach g rid (Suc n) = parent_rel g `` reach g rid n"
  by (auto simp: reach_def)

lemma within_0: "within g rid 0 = {}"
  by (auto simp: within_def)

lemma within_Suc: "within g rid (Suc k) = within g rid k \<union> reach g rid (Suc k)"
  by (auto simp: within_def le_Suc_eq)

lemma within_mono: "k \<le> k' \<Longrightarrow> within g rid k \<subseteq> within g rid k'"
  by (auto simp: within_def)

lemma level_sets:
  "set (fst (level g rid k)) = reach g rid k - within g rid (k - 1) \<and>
   fst (snd (level g rid k)) = within g rid k \<and>
   node_id ` set (snd (snd (level g rid k))) = within g rid k \<and>
   distinct (map node_id (snd (snd (level g rid k))))"
proof (induction k)
  case 0
  show ?case by (simp add: reach_0 within_0)
next
  case (Suc k)
  obtain frontier visited out where l: "level g rid k = (frontier, visited, out)"
    by (cases "level g rid k") auto
  from Suc l have f: "set frontier = reach g rid k - within g rid (k - 1)"
    and v: "visited = within g rid k" and o: "node_id ` set out = within g rid k"
    and d: "distinct (map node_id out)"
    by simp_all
  have new: "node_id ` set (scan g frontier visited) = reach g rid (Suc k) - within g rid k"
  proof -
    have "parent_rel g `` (reach g rid k - within g rid (k - 1)) - within g rid k =
          reach g rid (Suc k) - within g rid k"
    proof (rule set_eqI, rule iffI)
      fix a
      assume "a \<in> parent_rel g `` (reach g rid k - within g rid (k - 1)) - within g rid k"
      then show "a \<in> reach g rid (Suc k) - within g rid k"
        by (auto simp: reach_Suc)
    next
      fix a
      assume a: "a \<in> reach g rid (Suc k) - within g rid k"
      then obtain b where b: "b \<in> reach g rid k" "(b, a) \<in> parent_rel g"
        by (auto simp: reach_Suc)
      have "b \<notin> within g rid (k - 1)"
      proof
        assume "b \<in> within g rid (k - 1)"
        then obtain m where m: "0 < m" "m \<le> k - 1" "b \<in> reach g rid m"
          by (auto simp: within_def)
        with b have "a \<in> reach g rid (Suc m)" by (auto simp: reach_Suc)
        moreover from m have "0 < Suc m" "Suc m \<le> k" by auto
        ultimately have "a \<in> within g rid k" unfolding within_def by blast
        with a show False by simp
      qed
      with b a show "a \<in> parent_rel g `` (reach g rid k - within g rid (k - 1)) - within g rid k"
        by auto
    qed
    then show ?thesis by (simp add: ids_scan f v)
  qed
  have "distinct (map node_id (out @ scan g frontier visited))"
    using d distinct_scan [of g frontier visited] new o by auto
  then show ?case
    using new o v by (auto simp: l within_Suc image_Un)
qed


subsection \<open>The levels run out\<close>

lemma level_stays_empty:
  "fst (level g rid k) = [] \<Longrightarrow> level g rid (k + j) = level g rid k"
proof (induction j)
  case 0
  show ?case by simp
next
  case (Suc j)
  then show ?case by (cases "level g rid k") auto
qed

lemma finite_Range_parent_rel:
  assumes "finite (dom (in_edges g))"
  shows "finite (Range (parent_rel g))"
proof -
  have "Range (parent_rel g) \<subseteq> (\<Union>c \<in> dom (in_edges g). node_id ` set (iter_parents g c))"
  proof
    fix p
    assume "p \<in> Range (parent_rel g)"
    then obtain c where p: "p \<in> node_id ` set (iter_parents g c)"
      by (auto simp: parent_rel_def)
    then have "iter_parents g c \<noteq> []" by auto
    then have "c \<in> dom (in_edges g)"
      by (auto simp: iter_parents_def dict_get_def split: option.splits)
    with p show "p \<in> (\<Union>c \<in> dom (in_edges g). node_id ` set (iter_parents g c))" by blast
  qed
  moreover have "finite (\<Union>c \<in> dom (in_edges g). node_id ` set (iter_parents g c))"
    using assms by simp
  ultimately show ?thesis by (rule finite_subset)
qed

lemma within_Range: "within g rid k \<subseteq> Range (parent_rel g)"
proof
  fix a
  assume "a \<in> within g rid k"
  then obtain m where "0 < m" "a \<in> reach g rid m" by (auto simp: within_def)
  then obtain n where "a \<in> reach g rid (Suc n)" by (cases m) auto
  then show "a \<in> Range (parent_rel g)" by (auto simp: reach_Suc)
qed

lemma levels_run_out:
  assumes "finite (dom (in_edges g))"
  shows "\<exists>k. fst (level g rid k) = []"
proof (rule ccontr)
  assume "\<not> (\<exists>k. fst (level g rid k) = [])"
  then have ne: "fst (level g rid k) \<noteq> []" for k by simp
  have fin: "finite (within g rid k)" for k
    using finite_subset [OF within_Range finite_Range_parent_rel [OF assms]] .
  have grow: "k \<le> card (within g rid k)" for k
  proof (induction k)
    case 0
    show ?case by simp
  next
    case (Suc k)
    have "set (fst (level g rid (Suc k))) = reach g rid (Suc k) - within g rid k"
      using level_sets [of g rid "Suc k"] by (simp del: level.simps)
    moreover have "set (fst (level g rid (Suc k))) \<noteq> {}"
      using ne [of "Suc k"] by (simp del: level.simps)
    ultimately obtain a where "a \<in> reach g rid (Suc k)" "a \<notin> within g rid k"
      by (auto simp del: level.simps)
    then have "within g rid k \<subset> within g rid (Suc k)"
      by (auto simp: within_Suc)
    then have "card (within g rid k) < card (within g rid (Suc k))"
      using fin by (simp add: psubset_card_mono)
    with Suc show ?case by simp
  qed
  have "card (within g rid k) \<le> card (Range (parent_rel g))" for k
    using within_Range finite_Range_parent_rel [OF assms] by (simp add: card_mono)
  with grow [of "Suc (card (Range (parent_rel g)))"] show False
    by (meson Suc_n_not_le_n le_trans)
qed

lemma within_all_ancestors:
  assumes "fst (level g rid k) = []"
  shows "within g rid k = {a. (rid, a) \<in> (parent_rel g)\<^sup>+}"
proof (rule set_eqI, rule iffI)
  fix a
  assume "a \<in> within g rid k"
  then show "a \<in> {a. (rid, a) \<in> (parent_rel g)\<^sup>+}"
    by (auto simp: within_def reach_def trancl_power)
next
  fix a
  assume "a \<in> {a. (rid, a) \<in> (parent_rel g)\<^sup>+}"
  then obtain n where n: "0 < n" "(rid, a) \<in> parent_rel g ^^ n"
    by (auto simp: trancl_power)
  then have "a \<in> within g rid (k + n)" by (auto simp: within_def reach_def)
  moreover have "within g rid (k + n) = within g rid k"
    using level_sets [of g rid "k + n"] level_sets [of g rid k] level_stays_empty [OF assms, of n]
    by simp
  ultimately show "a \<in> within g rid k" by simp
qed

lemma level_order:
  assumes "i < j" "j < length (snd (snd (level g rid k)))" "0 < n"
    and "node_id (snd (snd (level g rid k)) ! j) \<in> reach g rid n"
  shows "node_id (snd (snd (level g rid k)) ! i) \<in> within g rid n"
  using assms
proof (induction k)
  case 0
  then show ?case by simp
next
  case (Suc k)
  obtain frontier visited out where l: "level g rid k = (frontier, visited, out)"
    by (cases "level g rid k") auto
  let ?new = "scan g frontier visited"
  have out': "snd (snd (level g rid (Suc k))) = out @ ?new" by (simp add: l)
  have out: "snd (snd (level g rid k)) = out" by (simp add: l)
  from Suc.prems have ij: "i < j" and j: "j < length out + length ?new" and n: "0 < n"
    and r: "node_id ((out @ ?new) ! j) \<in> reach g rid n"
    unfolding out' by simp_all
  show ?case
  proof (cases "j < length out")
    case True
    with ij r have "node_id (out ! i) \<in> within g rid n"
      using Suc.IH [unfolded out, OF ij True n] by (simp add: nth_append)
    with True ij show ?thesis unfolding out' by (simp add: nth_append)
  next
    case False
    with j have "?new ! (j - length out) \<in> set ?new" by simp
    with False have "node_id ((out @ ?new) ! j) \<in> node_id ` set ?new"
      by (simp add: nth_append)
    then have b: "node_id ((out @ ?new) ! j) \<notin> within g rid k"
      using level_sets [of g rid k] by (simp add: l ids_scan)
    have "Suc k \<le> n"
    proof (rule ccontr)
      assume "\<not> Suc k \<le> n"
      then have "n \<le> k" by simp
      with n r have "node_id ((out @ ?new) ! j) \<in> within g rid k"
        unfolding within_def by blast
      with b show False by simp
    qed
    moreover from ij j have "(out @ ?new) ! i \<in> set (out @ ?new)"
      by (simp del: set_append)
    then have "node_id ((out @ ?new) ! i) \<in> node_id ` set (snd (snd (level g rid (Suc k))))"
      unfolding out' by blast
    then have "node_id ((out @ ?new) ! i) \<in> within g rid (Suc k)"
      using level_sets [of g rid "Suc k"] by (simp del: level.simps)
    ultimately show ?thesis using within_mono [of "Suc k" n g rid] unfolding out' by blast
  qed
qed

lemma level_prefix: "\<exists>rest. snd (snd (level g rid (k + j))) = snd (snd (level g rid k)) @ rest"
proof (induction j)
  case 0
  show ?case by simp
next
  case (Suc j)
  then show ?case by (cases "level g rid (k + j)") auto
qed

lemma scan_append:
  "scan g (xs @ zs) visited =
   scan g xs visited @ scan g zs (visited \<union> node_id ` set (scan g xs visited))"
  by (induction xs arbitrary: visited) (simp_all add: image_Un Un_assoc)

lemma level_queue:
  "\<exists>popped. rid # map node_id (snd (snd (level g rid k))) = popped @ fst (level g rid k)
     \<and> snd (snd (level g rid k)) = scan g popped {}
     \<and> fst (snd (level g rid k)) = node_id ` set (snd (snd (level g rid k)))"
proof (induction k)
  case 0
  show ?case by (rule exI [of _ "[]"]) simp
next
  case (Suc k)
  obtain frontier visited out where l: "level g rid k = (frontier, visited, out)"
    by (cases "level g rid k") auto
  from Suc l obtain popped where q: "rid # map node_id out = popped @ frontier"
    and o: "out = scan g popped {}" and v: "visited = node_id ` set out"
    by auto
  let ?new = "scan g frontier visited"
  have L: "level g rid (Suc k) = (map node_id ?new, visited \<union> node_id ` set ?new, out @ ?new)"
    by (simp add: l)
  have A: "rid # map node_id (out @ ?new) = (popped @ frontier) @ map node_id ?new"
    using q by simp
  have B: "out @ ?new = scan g (popped @ frontier) {}"
    using o v by (simp add: scan_append)
  have C: "visited \<union> node_id ` set ?new = node_id ` set (out @ ?new)"
    using v by (simp add: image_Un)
  show ?case
    unfolding L fst_conv snd_conv
    by (intro exI [of _ "popped @ frontier"] conjI) (rule A B C)+
qed

lemma level_fifo:
  assumes "fst (level g rid k) = []"
  shows "snd (snd (level g rid k)) = scan g (rid # map node_id (snd (snd (level g rid k)))) {}"
proof -
  from level_queue [of rid g k] obtain popped
    where "rid # map node_id (snd (snd (level g rid k))) = popped @ fst (level g rid k)"
      and "snd (snd (level g rid k)) = scan g popped {}"
    by blast
  with assms show ?thesis by simp
qed

lemma hierarchy_result:
  assumes "finite (dom (in_edges g))"
  shows "\<exists>k. fst (level g rid k) = [] \<and>
             iter_resource_hierarchy g rid = Some (snd (snd (level g rid k)))"
  using levels_run_out [OF assms, of rid] hierarchy_done by blast

lemma hierarchy_no_parents:
  "iter_parents g rid = [] \<Longrightarrow> iter_resource_hierarchy g rid = Some []"
  by (simp add: iter_resource_hierarchy_def bfs_loop_Cons bfs_loop_Nil)


subsection \<open>Ancestors on a built graph\<close>

lemma finite_nodes_build_from:
  "finite (dom (nodes g)) \<Longrightarrow> finite (dom (nodes (build_from g ms)))"
proof (induction ms arbitrary: g)
  case Nil
  then show ?case by (simp add: build_from_Nil)
next
  case (Cons m ms)
  have "finite (dom (nodes (mutate g m)))"
    using Cons.prems by (cases m) (auto simp: add_node_def add_edge_def)
  from Cons.IH [OF this] show ?case by (simp add: build_from_Cons)
qed

lemma finite_build:
  "finite (dom (nodes (build ms)))" "finite (dom (out_edges (build ms)))"
  "finite (dom (in_edges (build ms)))"
  using finite_nodes_build_from [of empty_graph ms] finite_dom_build_from [of empty_graph ms]
  by (simp_all add: build_def empty_graph_def)

lemma iter_in_edges_build:
  "iter_in_edges (build ms) k = filter (\<lambda>e. node_id (target e) = k) (accepted ms)"
  using iter_in_edges_build_from [of empty_graph ms k]
  by (simp add: build_def accepted_def) (simp add: iter_in_edges_def empty_graph_def dict_get_def)

lemma accepted_stored:
  "e \<in> set (accepted ms) \<Longrightarrow>
   nodes (build ms) (node_id (source e)) \<noteq> None \<and> nodes (build ms) (node_id (target e)) \<noteq> None"
  using accepted_from_stored [of e empty_graph ms] by (simp add: build_def accepted_def)

lemma iter_parents_edges:
  "iter_parents g i = map source (filter (\<lambda>e. etype e = PARENT_OF) (iter_in_edges g i))"
  by (simp add: iter_parents_def iter_in_edges_def)

lemma parent_rel_build_stored:
  "(c, p) \<in> parent_rel (build ms) \<Longrightarrow>
   nodes (build ms) c \<noteq> None \<and> nodes (build ms) p \<noteq> None"
  using accepted_stored [of _ ms]
  by (auto simp: parent_rel_def iter_parents_edges iter_in_edges_build)

lemma iter_parents_unknown: "nodes (build ms) i = None \<Longrightarrow> iter_parents (build ms) i = []"
proof (rule ccontr)
  assume n: "nodes (build ms) i = None" and "iter_parents (build ms) i \<noteq> []"
  then obtain p where "p \<in> set (iter_parents (build ms) i)" by (cases "iter_parents (build ms) i") auto
  then have "(i, node_id p) \<in> parent_rel (build ms)" by (auto simp: parent_rel_def)
  from parent_rel_build_stored [OF this] n show False by simp
qed

text \<open>
  C7: the ancestor traversal of a graph with finitely many index keys ends, cycles among
  the \<^verbatim>\<open>PARENT_OF\<close> edges or not, and no two nodes it yields have the same id; a start
  id without incoming edges yields nothing. On a graph built by calls it always ends, every
  id it yields names a stored node, so it yields at most as many nodes as are stored, and a
  start id that names no stored node yields nothing.
\<close>

theorem ancestors_terminate:
  "(finite (dom (in_edges g)) \<longrightarrow>
      (\<exists>ys. iter_resource_hierarchy g rid = Some ys
            \<and> distinct (map node_id ys)
            \<and> (in_edges g rid = None \<longrightarrow> ys = [])))
   \<and> (\<exists>ys. iter_resource_hierarchy (build ms) rid = Some ys
          \<and> distinct (map node_id ys)
          \<and> node_id ` set ys \<subseteq> dom (nodes (build ms))
          \<and> length ys \<le> card (dom (nodes (build ms)))
          \<and> (get_node (build ms) rid = None \<longrightarrow> ys = []))"
proof (rule conjI, rule impI)
  assume fin: "finite (dom (in_edges g))"
  from hierarchy_result [OF fin, of rid] obtain k
    where k: "iter_resource_hierarchy g rid = Some (snd (snd (level g rid k)))" by blast
  have d: "distinct (map node_id (snd (snd (level g rid k))))"
    using level_sets [of g rid k] by simp
  have u: "snd (snd (level g rid k)) = []" if "in_edges g rid = None"
  proof -
    from that have "iter_parents g rid = []" by (simp add: iter_parents_def dict_get_def)
    from hierarchy_no_parents [OF this] k show ?thesis by simp
  qed
  show "\<exists>ys. iter_resource_hierarchy g rid = Some ys
            \<and> distinct (map node_id ys) \<and> (in_edges g rid = None \<longrightarrow> ys = [])"
    by (rule exI [of _ "snd (snd (level g rid k))"]) (simp add: k d u)
next
  let ?g = "build ms"
  from hierarchy_result [OF finite_build(3), of ms rid] obtain k
    where k: "iter_resource_hierarchy ?g rid = Some (snd (snd (level ?g rid k)))" by blast
  let ?ys = "snd (snd (level ?g rid k))"
  have d: "distinct (map node_id ?ys)"
    using level_sets [of ?g rid k] by simp
  have "node_id ` set ?ys = within ?g rid k" using level_sets [of ?g rid k] by simp
  also have "\<dots> \<subseteq> Range (parent_rel ?g)" by (rule within_Range)
  also have "\<dots> \<subseteq> dom (nodes ?g)" using parent_rel_build_stored [of _ _ ms] by auto
  finally have sub: "node_id ` set ?ys \<subseteq> dom (nodes ?g)" .
  have "length ?ys = card (node_id ` set ?ys)"
    using d by (metis distinct_card length_map set_map)
  also have "\<dots> \<le> card (dom (nodes ?g))"
    using sub finite_build(1) [of ms] by (rule card_mono [rotated])
  finally have len: "length ?ys \<le> card (dom (nodes ?g))" .
  have u: "?ys = []" if "get_node ?g rid = None"
  proof -
    from that have "iter_parents ?g rid = []" by (simp add: iter_parents_unknown get_node_def)
    from hierarchy_no_parents [OF this] k show ?thesis by simp
  qed
  show "\<exists>ys. iter_resource_hierarchy ?g rid = Some ys
          \<and> distinct (map node_id ys)
          \<and> node_id ` set ys \<subseteq> dom (nodes ?g)
          \<and> length ys \<le> card (dom (nodes ?g))
          \<and> (get_node ?g rid = None \<longrightarrow> ys = [])"
    by (rule exI [of _ ?ys]) (simp add: k d sub len u)
qed

theorem ancestors_terminate_witness:
  "finite (dom (in_edges cycle_graph))
   \<and> iter_resource_hierarchy cycle_graph ''F1'' = Some [F5, F1]
   \<and> distinct (map node_id [F5, F1])
   \<and> node_id ` set [F5, F1] \<subseteq> dom (nodes cycle_graph)
   \<and> length [F5, F1] \<le> card (dom (nodes cycle_graph))
   \<and> in_edges cycle_graph ''ghost'' = None
   \<and> get_node cycle_graph ''ghost'' = None
   \<and> iter_resource_hierarchy cycle_graph ''ghost'' = Some []"
proof -
  have fin: "finite (dom (in_edges cycle_graph))"
    unfolding cycle_graph_def by (rule finite_build)
  have r: "iter_resource_hierarchy cycle_graph ''F1'' = Some [F5, F1]"
    by (simp add: iter_resource_hierarchy_def cycle_graph_def graph_eval bfs_loop_Nil bfs_loop_Cons)
  have u: "in_edges cycle_graph ''ghost'' = None" "get_node cycle_graph ''ghost'' = None"
    by (simp_all add: cycle_graph_def graph_eval)
  note T = ancestors_terminate [of cycle_graph _ cycle_calls, folded cycle_graph_def]
  from T [of "''F1''"] r
  have a: "distinct (map node_id [F5, F1]) \<and> node_id ` set [F5, F1] \<subseteq> dom (nodes cycle_graph)
      \<and> length [F5, F1] \<le> card (dom (nodes cycle_graph))"
    by auto
  from T [of "''ghost''"] fin u
  have b: "iter_resource_hierarchy cycle_graph ''ghost'' = Some []"
    by auto
  show ?thesis using fin r a u b by simp
qed

text \<open>
  C2: on a graph with finitely many index keys the ancestor traversal returns a list in
  which no id occurs twice and whose ids are exactly the ids reachable from the start by
  one or more steps to a parent. The list is in breadth-first discovery order, and the
  order is fixed completely: it is the output of the level-by-level computation \<open>level\<close>
  at a level with an empty frontier, and it is the list \<open>ys\<close> with
  \<open>ys = scan g (rid # map node_id ys) {}\<close>, that is, the nodes are expanded first in,
  first out, the start first and then the yielded nodes in the order of their yield, each
  contributing its parents not yet seen, in the order of its incoming edges. In particular
  the list starts with the immediate parents, and a node listed before another is
  reachable in no more steps than any number of steps that reaches the other.
\<close>

theorem ancestors_bfs_order:
  assumes "finite (dom (in_edges g))"
  shows "\<exists>ys. iter_resource_hierarchy g rid = Some ys
      \<and> distinct (map node_id ys)
      \<and> node_id ` set ys = {a. (rid, a) \<in> (parent_rel g)\<^sup>+}
      \<and> (\<exists>rest. ys = fresh (iter_parents g rid) {} @ rest)
      \<and> (\<forall>i j n. i < j \<and> j < length ys \<and> 0 < n
            \<and> (rid, node_id (ys ! j)) \<in> parent_rel g ^^ n \<longrightarrow>
            (\<exists>m. 0 < m \<and> m \<le> n \<and> (rid, node_id (ys ! i)) \<in> parent_rel g ^^ m))
      \<and> (\<exists>k. fst (level g rid k) = [] \<and> ys = snd (snd (level g rid k)))
      \<and> ys = scan g (rid # map node_id ys) {}"
proof -
  from hierarchy_result [OF assms, of rid] obtain k
    where e: "fst (level g rid k) = []"
      and k: "iter_resource_hierarchy g rid = Some (snd (snd (level g rid k)))" by blast
  let ?ys = "snd (snd (level g rid k))"
  have d: "distinct (map node_id ?ys)" using level_sets [of g rid k] by simp
  have s: "node_id ` set ?ys = {a. (rid, a) \<in> (parent_rel g)\<^sup>+}"
    using level_sets [of g rid k] within_all_ancestors [OF e] by simp
  have "k \<noteq> 0"
  proof
    assume "k = 0"
    with e show False by simp
  qed
  then obtain j where "k = Suc 0 + j" by (cases k) auto
  with level_prefix [of g rid "Suc 0" j]
  have p: "\<exists>rest. ?ys = fresh (iter_parents g rid) {} @ rest" by simp
  have ord: "\<exists>m. 0 < m \<and> m \<le> n \<and> (rid, node_id (?ys ! i)) \<in> parent_rel g ^^ m"
    if "i < j" "j < length ?ys" "0 < n" "(rid, node_id (?ys ! j)) \<in> parent_rel g ^^ n" for i j n
    using level_order [of i j g rid k n] that by (simp add: reach_def within_def)
  have l: "\<exists>k'. fst (level g rid k') = [] \<and> ?ys = snd (snd (level g rid k'))"
    using e by blast
  have f: "?ys = scan g (rid # map node_id ?ys) {}" by (rule level_fifo [OF e])
  show ?thesis
  proof (rule exI [of _ ?ys], intro conjI)
    show "\<forall>i j n. i < j \<and> j < length ?ys \<and> 0 < n
            \<and> (rid, node_id (?ys ! j)) \<in> parent_rel g ^^ n \<longrightarrow>
            (\<exists>m. 0 < m \<and> m \<le> n \<and> (rid, node_id (?ys ! i)) \<in> parent_rel g ^^ m)"
      using ord by blast
  qed (rule k d s p l f)+
qed

theorem ancestors_bfs_order_witness:
  "finite (dom (in_edges chain_graph))
   \<and> iter_resource_hierarchy chain_graph ''F6'' = Some [F5, F1, Org]
   \<and> iter_resource_hierarchy chain_graph ''Org'' = Some []
   \<and> distinct (map node_id [F5, F1, Org])
   \<and> node_id ` set [F5, F1, Org] = {a. (''F6'', a) \<in> (parent_rel chain_graph)\<^sup>+}
   \<and> (''F6'', node_id ([F5, F1, Org] ! 2)) \<in> parent_rel chain_graph ^^ 3
   \<and> (\<exists>m. 0 < m \<and> m \<le> 3 \<and> (''F6'', node_id ([F5, F1, Org] ! 0)) \<in> parent_rel chain_graph ^^ m)
   \<and> finite (dom (in_edges diamond_graph))
   \<and> iter_parents diamond_graph ''F5'' = [F1, F2]
   \<and> iter_parents diamond_graph ''F1'' = [Org]
   \<and> iter_parents diamond_graph ''F2'' = [Org]
   \<and> iter_resource_hierarchy diamond_graph ''F5'' = Some [F1, F2, Org]
   \<and> distinct (map node_id [F1, F2, Org])
   \<and> finite (dom (in_edges fork_graph))
   \<and> iter_resource_hierarchy fork_graph ''F6'' = Some [F5, F2, F1, Org]
   \<and> level fork_graph ''F6'' 3 = ([], {''F5'', ''F2'', ''F1'', ''Org''}, [F5, F2, F1, Org])
   \<and> scan fork_graph (''F6'' # map node_id [F5, F2, F1, Org]) {} = [F5, F2, F1, Org]
   \<and> scan fork_graph (''F6'' # map node_id [F5, F2, Org, F1]) {} \<noteq> [F5, F2, Org, F1]"
proof -
  have fin: "finite (dom (in_edges chain_graph))" "finite (dom (in_edges diamond_graph))"
    "finite (dom (in_edges fork_graph))"
    unfolding chain_graph_def diamond_graph_def fork_graph_def by (rule finite_build)+
  have r: "iter_resource_hierarchy chain_graph ''F6'' = Some [F5, F1, Org]"
    "iter_resource_hierarchy chain_graph ''Org'' = Some []"
    by (simp_all add: iter_resource_hierarchy_def chain_graph_def graph_eval
        bfs_loop_Nil bfs_loop_Cons)
  have d: "iter_resource_hierarchy diamond_graph ''F5'' = Some [F1, F2, Org]"
    "iter_parents diamond_graph ''F5'' = [F1, F2]"
    "iter_parents diamond_graph ''F1'' = [Org]"
    "iter_parents diamond_graph ''F2'' = [Org]"
    by (simp_all add: iter_resource_hierarchy_def diamond_graph_def graph_eval
        bfs_loop_Nil bfs_loop_Cons)
  have f: "iter_resource_hierarchy fork_graph ''F6'' = Some [F5, F2, F1, Org]"
    by (simp add: iter_resource_hierarchy_def fork_graph_def fork_calls_def graph_eval
        bfs_loop_Nil bfs_loop_Cons)
  have fl: "level fork_graph ''F6'' 3 = ([], {''F5'', ''F2'', ''F1'', ''Org''}, [F5, F2, F1, Org])"
    by (simp add: fork_graph_def fork_calls_def graph_eval numeral_3_eq_3 insert_commute)
  have fw: "scan fork_graph (''F6'' # map node_id [F5, F2, Org, F1]) {} \<noteq> [F5, F2, Org, F1]"
    by (simp add: fork_graph_def fork_calls_def graph_eval)
  have ps: "iter_parents chain_graph ''F6'' = [F5]" "iter_parents chain_graph ''F5'' = [F1]"
    "iter_parents chain_graph ''F1'' = [Org]"
    by (simp_all add: chain_graph_def graph_eval)
  have step: "(''F6'', ''F5'') \<in> parent_rel chain_graph" "(''F5'', ''F1'') \<in> parent_rel chain_graph"
    "(''F1'', ''Org'') \<in> parent_rel chain_graph"
    by (simp_all add: parent_rel_def ps) (simp_all add: Org_def F1_def F5_def ResourceNode_def)
  have p3: "(''F6'', node_id ([F5, F1, Org] ! 2)) \<in> parent_rel chain_graph ^^ 3"
    using step by (auto simp: numeral_3_eq_3 Org_def ResourceNode_def)
  from ancestors_bfs_order [OF fin(1), of "''F6''"] obtain ys
    where Y: "iter_resource_hierarchy chain_graph ''F6'' = Some ys
      \<and> distinct (map node_id ys)
      \<and> node_id ` set ys = {a. (''F6'', a) \<in> (parent_rel chain_graph)\<^sup>+}
      \<and> (\<exists>rest. ys = fresh (iter_parents chain_graph ''F6'') {} @ rest)
      \<and> (\<forall>i j n. i < j \<and> j < length ys \<and> 0 < n
            \<and> (''F6'', node_id (ys ! j)) \<in> parent_rel chain_graph ^^ n \<longrightarrow>
            (\<exists>m. 0 < m \<and> m \<le> n \<and> (''F6'', node_id (ys ! i)) \<in> parent_rel chain_graph ^^ m))
      \<and> (\<exists>k. fst (level chain_graph ''F6'' k) = [] \<and> ys = snd (snd (level chain_graph ''F6'' k)))
      \<and> ys = scan chain_graph (''F6'' # map node_id ys) {}" ..
  from Y [THEN conjunct1] r(1) have ys: "ys = [F5, F1, Org]" by simp
  note a1 = Y [THEN conjunct2, THEN conjunct1, unfolded ys]
  note a2 = Y [THEN conjunct2, THEN conjunct2, THEN conjunct1, unfolded ys]
  note o = Y [THEN conjunct2, THEN conjunct2, THEN conjunct2, THEN conjunct2, THEN conjunct1,
      unfolded ys]
  have "(0::nat) < 2 \<and> 2 < length [F5, F1, Org] \<and> (0::nat) < 3
      \<and> (''F6'', node_id ([F5, F1, Org] ! 2)) \<in> parent_rel chain_graph ^^ 3"
    using p3 by simp
  with o have o': "\<exists>m. 0 < m \<and> m \<le> 3 \<and>
      (''F6'', node_id ([F5, F1, Org] ! 0)) \<in> parent_rel chain_graph ^^ m"
    by blast
  from ancestors_bfs_order [OF fin(2), of "''F5''"] obtain zs
    where Z: "iter_resource_hierarchy diamond_graph ''F5'' = Some zs
      \<and> distinct (map node_id zs)
      \<and> node_id ` set zs = {a. (''F5'', a) \<in> (parent_rel diamond_graph)\<^sup>+}
      \<and> (\<exists>rest. zs = fresh (iter_parents diamond_graph ''F5'') {} @ rest)
      \<and> (\<forall>i j n. i < j \<and> j < length zs \<and> 0 < n
            \<and> (''F5'', node_id (zs ! j)) \<in> parent_rel diamond_graph ^^ n \<longrightarrow>
            (\<exists>m. 0 < m \<and> m \<le> n \<and> (''F5'', node_id (zs ! i)) \<in> parent_rel diamond_graph ^^ m))
      \<and> (\<exists>k. fst (level diamond_graph ''F5'' k) = [] \<and> zs = snd (snd (level diamond_graph ''F5'' k)))
      \<and> zs = scan diamond_graph (''F5'' # map node_id zs) {}" ..
  from Z [THEN conjunct1] d(1) have zs: "zs = [F1, F2, Org]" by simp
  note b = Z [THEN conjunct2, THEN conjunct1, unfolded zs]
  from ancestors_bfs_order [OF fin(3), of "''F6''"] obtain ws
    where W: "iter_resource_hierarchy fork_graph ''F6'' = Some ws
      \<and> distinct (map node_id ws)
      \<and> node_id ` set ws = {a. (''F6'', a) \<in> (parent_rel fork_graph)\<^sup>+}
      \<and> (\<exists>rest. ws = fresh (iter_parents fork_graph ''F6'') {} @ rest)
      \<and> (\<forall>i j n. i < j \<and> j < length ws \<and> 0 < n
            \<and> (''F6'', node_id (ws ! j)) \<in> parent_rel fork_graph ^^ n \<longrightarrow>
            (\<exists>m. 0 < m \<and> m \<le> n \<and> (''F6'', node_id (ws ! i)) \<in> parent_rel fork_graph ^^ m))
      \<and> (\<exists>k. fst (level fork_graph ''F6'' k) = [] \<and> ws = snd (snd (level fork_graph ''F6'' k)))
      \<and> ws = scan fork_graph (''F6'' # map node_id ws) {}" ..
  from W [THEN conjunct1] f have ws: "ws = [F5, F2, F1, Org]" by simp
  note fs = W [THEN conjunct2, THEN conjunct2, THEN conjunct2, THEN conjunct2, THEN conjunct2,
      THEN conjunct2, unfolded ws, symmetric]
  show ?thesis
    by (intro conjI fin r d f fl fs fw p3 o' b a1 a2)
qed

section \<open>The descendant traversal\<close>

lemma for_children_mono:
  assumes "\<And>c zs. c \<in> set cs \<Longrightarrow> f (node_id c) = Inr zs \<Longrightarrow> f' (node_id c) = Inr zs"
    and "for_children f cs = Inr ys"
  shows "for_children f' cs = Inr ys"
  using assms
proof (induction cs arbitrary: ys)
  case Nil
  then show ?case by simp
next
  case (Cons c cs)
  from Cons.prems(2) obtain ds rest where ds: "f (node_id c) = Inr ds"
    and rest: "for_children f cs = Inr rest" and ys: "ys = c # ds @ rest"
    by (auto split: sum.splits)
  from Cons.prems(1) [of c ds] ds have "f' (node_id c) = Inr ds" by simp
  moreover from Cons.IH [OF _ rest] Cons.prems(1) have "for_children f' cs = Inr rest" by simp
  ultimately show ?case by (simp add: ys)
qed

lemma iter_descendants_Suc:
  "iter_descendants n g j = Inr ys \<Longrightarrow> iter_descendants (Suc n) g j = Inr ys"
proof (induction n arbitrary: j ys)
  case 0
  then show ?case by simp
next
  case (Suc n)
  from Suc.prems have "for_children (\<lambda>c. iter_descendants n g c) (iter_children g j) = Inr ys"
    by simp
  then have "for_children (\<lambda>c. iter_descendants (Suc n) g c) (iter_children g j) = Inr ys"
    by (rule for_children_mono [rotated]) (rule Suc.IH)
  then show ?case by simp
qed

lemma iter_descendants_mono:
  "n \<le> m \<Longrightarrow> iter_descendants n g j = Inr ys \<Longrightarrow> iter_descendants m g j = Inr ys"
  by (induction m) (auto simp: le_Suc_eq dest: iter_descendants_Suc simp del: iter_descendants.simps)

lemma for_children_all:
  "(\<And>c. c \<in> set cs \<Longrightarrow> f (node_id c) = Inr (D (node_id c))) \<Longrightarrow>
   for_children f cs = Inr (concat (map (\<lambda>c. c # D (node_id c)) cs))"
  by (induction cs) auto

lemma finite_child_rel:
  assumes "finite (dom (out_edges g))"
  shows "finite (child_rel g)"
proof -
  have "child_rel g \<subseteq> (\<Union>p \<in> dom (out_edges g). node_id ` set (iter_children g p)) \<times> dom (out_edges g)"
  proof
    fix x
    assume "x \<in> child_rel g"
    then obtain c p where x: "x = (c, p)" and c: "c \<in> node_id ` set (iter_children g p)"
      by (auto simp: child_rel_def)
    then have "iter_children g p \<noteq> []" by auto
    then have "p \<in> dom (out_edges g)"
      by (auto simp: iter_children_def dict_get_def split: option.splits)
    with c x show "x \<in> (\<Union>p \<in> dom (out_edges g). node_id ` set (iter_children g p)) \<times> dom (out_edges g)"
      by blast
  qed
  moreover have "finite ((\<Union>p \<in> dom (out_edges g). node_id ` set (iter_children g p)) \<times> dom (out_edges g))"
    using assms by simp
  ultimately show ?thesis by (rule finite_subset)
qed

lemma wf_child_rel:
  "finite (dom (out_edges g)) \<Longrightarrow> acyclic (child_rel g) \<Longrightarrow> wf (child_rel g)"
  by (simp add: finite_acyclic_wf finite_child_rel)

lemma descendants_stabilise:
  assumes "wf (child_rel g)"
  shows "\<exists>N ys. \<forall>n\<ge>N. iter_descendants n g j = Inr ys"
  using assms
proof (induction j rule: wf_induct_rule)
  case (less j)
  let ?cs = "iter_children g j"
  have "\<forall>c. \<exists>N ys. (c, j) \<in> child_rel g \<longrightarrow> (\<forall>n\<ge>N. iter_descendants n g c = Inr ys)"
    using less by blast
  then obtain Nf Df where
    f: "\<And>c n. (c, j) \<in> child_rel g \<Longrightarrow> Nf c \<le> n \<Longrightarrow> iter_descendants n g c = Inr (Df c)"
    by metis
  let ?N = "sum_list (map (\<lambda>c. Nf (node_id c)) ?cs)"
  have "iter_descendants n g j = Inr (concat (map (\<lambda>c. c # Df (node_id c)) ?cs))"
    if "Suc ?N \<le> n" for n
  proof -
    from that obtain n' where n: "n = Suc n'" "?N \<le> n'" by (cases n) auto
    have "iter_descendants n' g (node_id c) = Inr (Df (node_id c))" if "c \<in> set ?cs" for c
    proof -
      from that have "(node_id c, j) \<in> child_rel g" by (auto simp: child_rel_def)
      moreover have "Nf (node_id c) \<le> ?N"
        using that member_le_sum_list [of "Nf (node_id c)" "map (\<lambda>c. Nf (node_id c)) ?cs"]
        by auto
      ultimately show ?thesis using f n by simp
    qed
    then show ?thesis by (simp add: n for_children_all [where D = Df])
  qed
  then show ?case by blast
qed

lemma descendants_exist:
  assumes "finite (dom (out_edges g))" "acyclic (child_rel g)"
  shows "\<exists>D. \<forall>j. \<exists>N. \<forall>n\<ge>N. iter_descendants n g j = Inr (D j)"
  using descendants_stabilise [OF wf_child_rel [OF assms]] by metis

lemma descendants_unique:
  assumes "\<forall>j. \<exists>N. \<forall>n\<ge>N. iter_descendants n g j = Inr (D j)"
    and "iter_descendants n g j = Inr ys"
  shows "ys = D j"
proof -
  from assms(1) obtain N where N: "\<forall>m\<ge>N. iter_descendants m g j = Inr (D j)" by blast
  from iter_descendants_mono [OF _ assms(2), of "max n N"]
  have "iter_descendants (max n N) g j = Inr ys" by simp
  with N show ?thesis by simp
qed

lemma descendants_equation:
  assumes "\<forall>j. \<exists>N. \<forall>n\<ge>N. iter_descendants n g j = Inr (D j)"
  shows "D j = concat (map (\<lambda>c. c # D (node_id c)) (iter_children g j))"
proof -
  let ?cs = "iter_children g j"
  from assms obtain Nf where f: "\<And>i n. Nf i \<le> n \<Longrightarrow> iter_descendants n g i = Inr (D i)"
    by metis
  let ?N = "Nf j + sum_list (map (\<lambda>c. Nf (node_id c)) ?cs)"
  have "iter_descendants ?N g (node_id c) = Inr (D (node_id c))" if "c \<in> set ?cs" for c
  proof -
    have "Nf (node_id c) \<le> ?N"
      using that member_le_sum_list [of "Nf (node_id c)" "map (\<lambda>c. Nf (node_id c)) ?cs"]
      by (auto simp: trans_le_add2)
    then show ?thesis by (rule f)
  qed
  then have "iter_descendants (Suc ?N) g j = Inr (concat (map (\<lambda>c. c # D (node_id c)) ?cs))"
    by (simp add: for_children_all [where D = D])
  moreover have "iter_descendants (Suc ?N) g j = Inr (D j)" by (rule f) simp
  ultimately show ?thesis by simp
qed

lemma descendants_block:
  assumes "\<forall>j. \<exists>N. \<forall>n\<ge>N. iter_descendants n g j = Inr (D j)"
    and "c \<in> set (iter_children g j)"
  shows "\<exists>pre post. D j = pre @ c # D (node_id c) @ post"
proof -
  from assms(2) obtain xs zs where "iter_children g j = xs @ c # zs"
    by (auto simp: in_set_conv_decomp)
  then have "D j = concat (map (\<lambda>c. c # D (node_id c)) xs) @ c # D (node_id c) @
                   concat (map (\<lambda>c. c # D (node_id c)) zs)"
    using descendants_equation [OF assms(1), of j] by simp
  then show ?thesis by blast
qed

lemma descendants_ids:
  assumes "wf (child_rel g)"
    and "\<forall>j. \<exists>N. \<forall>n\<ge>N. iter_descendants n g j = Inr (D j)"
  shows "node_id ` set (D j) = {d. (d, j) \<in> (child_rel g)\<^sup>+}"
  using assms(1)
proof (induction j rule: wf_induct_rule)
  case (less j)
  let ?cs = "iter_children g j"
  have eq: "D j = concat (map (\<lambda>c. c # D (node_id c)) ?cs)"
    by (rule descendants_equation [OF assms(2)])
  have ch: "(c, j) \<in> child_rel g \<longleftrightarrow> c \<in> node_id ` set ?cs" for c
    by (auto simp: child_rel_def)
  show ?case
  proof (rule set_eqI, rule iffI)
    fix d
    assume "d \<in> node_id ` set (D j)"
    then obtain c where c: "c \<in> set ?cs" and d: "d = node_id c \<or> d \<in> node_id ` set (D (node_id c))"
      by (subst (asm) eq) auto
    from c have cj: "(node_id c, j) \<in> child_rel g" by (simp add: ch)
    from d show "d \<in> {d. (d, j) \<in> (child_rel g)\<^sup>+}"
    proof
      assume "d = node_id c"
      with cj show ?thesis by auto
    next
      assume "d \<in> node_id ` set (D (node_id c))"
      with less [OF cj] have "(d, node_id c) \<in> (child_rel g)\<^sup>+" by simp
      with cj show ?thesis by (auto intro: trancl_into_trancl)
    qed
  next
    fix d
    assume "d \<in> {d. (d, j) \<in> (child_rel g)\<^sup>+}"
    then have "(d, j) \<in> (child_rel g)\<^sup>+" by simp
    then consider "(d, j) \<in> child_rel g"
      | c where "(d, c) \<in> (child_rel g)\<^sup>+" "(c, j) \<in> child_rel g"
      by (auto elim: tranclE)
    then show "d \<in> node_id ` set (D j)"
    proof cases
      case 1
      then obtain c where "c \<in> set ?cs" "d = node_id c" by (auto simp: ch)
      then show ?thesis by (subst eq) auto
    next
      case 2
      from 2(2) obtain c' where c': "c' \<in> set ?cs" "c = node_id c'" by (auto simp: ch)
      from less [OF 2(2)] 2(1) have "d \<in> node_id ` set (D c)" by simp
      with c' show ?thesis by (subst eq) auto
    qed
  qed
qed

lemma acyclic_by_rank:
  assumes "\<And>c p. (c, p) \<in> r \<Longrightarrow> rank c < (rank p :: nat)"
  shows "acyclic r"
proof -
  have "r \<subseteq> measure rank" using assms by auto
  then have "wf r" by (rule wf_subset [OF wf_measure])
  then show ?thesis by (rule wf_acyclic)
qed

lemma acyclic_tree: "acyclic (child_rel tree_graph)"
proof (rule acyclic_by_rank)
  fix c p
  assume "(c, p) \<in> child_rel tree_graph"
  then show "(if c = ''Org'' then 2 else if c = ''F1'' then 1 else (0::nat))
           < (if p = ''Org'' then 2 else if p = ''F1'' then 1 else 0)"
    by (auto simp: child_rel_def tree_graph_def graph_eval split: if_splits)
qed

text \<open>
  C4: on a graph with finitely many index keys whose child relation is acyclic, the
  descendant traversal returns, at every sufficient recursion depth, one list \<open>D j\<close> for
  each id \<open>j\<close>, and never another list at any depth. The list is in depth-first
  pre-order: it is, child after child in the order of \<open>iter_children\<close>, the child itself
  followed at once by the list of that child, so that every child stands right before
  its own descendants. The ids in the list are exactly the ids below \<open>j\<close>.
\<close>

theorem descendants_preorder:
  assumes "finite (dom (out_edges g))" "acyclic (child_rel g)"
  shows "\<exists>D. (\<forall>j. \<exists>N. \<forall>n\<ge>N. iter_descendants n g j = Inr (D j))
      \<and> (\<forall>j n ys. iter_descendants n g j = Inr ys \<longrightarrow> ys = D j)
      \<and> (\<forall>j. D j = concat (map (\<lambda>c. c # D (node_id c)) (iter_children g j)))
      \<and> (\<forall>j c. c \<in> set (iter_children g j) \<longrightarrow>
            (\<exists>pre post. D j = pre @ c # D (node_id c) @ post))
      \<and> (\<forall>j. node_id ` set (D j) = {d. (d, j) \<in> (child_rel g)\<^sup>+})"
proof -
  from descendants_exist [OF assms] obtain D
    where D: "\<forall>j. \<exists>N. \<forall>n\<ge>N. iter_descendants n g j = Inr (D j)" by blast
  show ?thesis
  proof (rule exI [of _ D], intro conjI allI impI)
    show "\<exists>N. \<forall>n\<ge>N. iter_descendants n g j = Inr (D j)" for j using D by blast
    show "ys = D j" if "iter_descendants n g j = Inr ys" for j n ys
      using that by (rule descendants_unique [OF D])
    show "D j = concat (map (\<lambda>c. c # D (node_id c)) (iter_children g j))" for j
      by (rule descendants_equation [OF D])
    show "\<exists>pre post. D j = pre @ c # D (node_id c) @ post"
      if "c \<in> set (iter_children g j)" for j c
      using that by (rule descendants_block [OF D])
    show "node_id ` set (D j) = {d. (d, j) \<in> (child_rel g)\<^sup>+}" for j
      by (rule descendants_ids [OF wf_child_rel [OF assms] D])
  qed
qed

theorem descendants_preorder_witness:
  "finite (dom (out_edges tree_graph))
   \<and> acyclic (child_rel tree_graph)
   \<and> iter_children tree_graph ''Org'' = [F1, F2]
   \<and> iter_children tree_graph ''F1'' = [F5]
   \<and> iter_descendants 3 tree_graph ''Org'' = Inr [F1, F5, F2]
   \<and> iter_descendants 2 tree_graph ''F1'' = Inr [F5]
   \<and> [F1, F5, F2] = [] @ F1 # [F5] @ [F2]
   \<and> length [F1, F5, F2] = 3
   \<and> node_id ` set [F1, F5, F2] = {d. (d, ''Org'') \<in> (child_rel tree_graph)\<^sup>+}"
proof -
  have fin: "finite (dom (out_edges tree_graph))"
    unfolding tree_graph_def by (rule finite_build)
  have c: "iter_children tree_graph ''Org'' = [F1, F2]" "iter_children tree_graph ''F1'' = [F5]"
    by (simp_all add: tree_graph_def graph_eval)
  have d: "iter_descendants 3 tree_graph ''Org'' = Inr [F1, F5, F2]"
    "iter_descendants 2 tree_graph ''F1'' = Inr [F5]"
    by (simp_all add: tree_graph_def graph_eval numeral_3_eq_3 numeral_2_eq_2)
  from descendants_preorder [OF fin acyclic_tree] obtain D
    where D: "(\<forall>j. \<exists>N. \<forall>n\<ge>N. iter_descendants n tree_graph j = Inr (D j))
      \<and> (\<forall>j n ys. iter_descendants n tree_graph j = Inr ys \<longrightarrow> ys = D j)
      \<and> (\<forall>j. D j = concat (map (\<lambda>c. c # D (node_id c)) (iter_children tree_graph j)))
      \<and> (\<forall>j c. c \<in> set (iter_children tree_graph j) \<longrightarrow>
            (\<exists>pre post. D j = pre @ c # D (node_id c) @ post))
      \<and> (\<forall>j. node_id ` set (D j) = {d. (d, j) \<in> (child_rel tree_graph)\<^sup>+})" ..
  from D have u: "iter_descendants n tree_graph j = Inr ys \<longrightarrow> ys = D j" for j n ys
    by (elim conjE allE)
  from D have i: "node_id ` set (D j) = {d. (d, j) \<in> (child_rel tree_graph)\<^sup>+}" for j
    by (elim conjE allE)
  from u [of 3 "''Org''" "[F1, F5, F2]"] d(1) have "D ''Org'' = [F1, F5, F2]" by simp
  with i [of "''Org''"]
  have s: "node_id ` set [F1, F5, F2] = {d. (d, ''Org'') \<in> (child_rel tree_graph)\<^sup>+}"
    by simp
  show ?thesis
    by (intro conjI fin acyclic_tree c d s) simp_all
qed

section \<open>Permissions with inheritance\<close>








end
